theory Spec2Isabelle
  imports Main "HOL-Library.Signed_Division" "HOL-Library.Multiset"
begin

unbundle bit_operations_syntax

section \<open>Go integers and maps\<close>

text \<open>
  Go's \<open>int\<close> has 64 bits: a value is an integer from \<open>- 2 ^ 63\<close> to
  \<open>2 ^ 63 - 1\<close>, and \<open>+\<close>, \<open>-\<close> and \<open>*\<close> wrap around
  (\<open>add64\<close>, \<open>sub64\<close>, \<open>mul64\<close>).  \<open>/\<close> and \<open>%\<close> truncate
  towards zero (\<open>sdiv\<close>, \<open>smod\<close>); with a positive divisor they do not leave the
  range.  Reading a missing key of a Go map yields the zero value of the value type.
\<close>

definition wrap64 :: "int \<Rightarrow> int" where
  "wrap64 x = (x + 2 ^ 63) mod 2 ^ 64 - 2 ^ 63"

definition add64 :: "int \<Rightarrow> int \<Rightarrow> int" where
  "add64 a b = wrap64 (a + b)"

definition sub64 :: "int \<Rightarrow> int \<Rightarrow> int" where
  "sub64 a b = wrap64 (a - b)"

definition mul64 :: "int \<Rightarrow> int \<Rightarrow> int" where
  "mul64 a b = wrap64 (a * b)"

definition lookup_int :: "('k \<times> int) list \<Rightarrow> 'k \<Rightarrow> int" where
  "lookup_int m k = (case map_of m k of None \<Rightarrow> 0 | Some v \<Rightarrow> v)"

definition lookup_str :: "('k \<times> string) list \<Rightarrow> 'k \<Rightarrow> string" where
  "lookup_str m k = (case map_of m k of None \<Rightarrow> [] | Some v \<Rightarrow> v)"

section \<open>Rank scores\<close>

definition tierToInt :: "(string \<times> int) list" where
  "tierToInt =
    [(''IRON'', 1), (''BRONZE'', 2), (''SILVER'', 3), (''GOLD'', 4), (''PLATINUM'', 5),
     (''EMERALD'', 6), (''DIAMOND'', 7), (''MASTER'', 8), (''GRANDMASTER'', 9),
     (''CHALLENGER'', 10)]"

definition intToTier :: "(int \<times> string) list" where
  "intToTier =
    [(1, ''IRON''), (2, ''BRONZE''), (3, ''SILVER''), (4, ''GOLD''), (5, ''PLATINUM''),
     (6, ''EMERALD''), (7, ''DIAMOND''), (8, ''MASTER''), (9, ''GRANDMASTER''),
     (10, ''CHALLENGER'')]"

definition rankToInt :: "(string \<times> int) list" where
  "rankToInt = [(''IV'', 1), (''III'', 2), (''II'', 3), (''I'', 4)]"

definition intToRank :: "(int \<times> string) list" where
  "intToRank = [(1, ''IV''), (2, ''III''), (3, ''II''), (4, ''I'')]"

definition rankScore :: "string \<Rightarrow> string \<Rightarrow> int \<Rightarrow> int" where
  "rankScore tier rank lp =
    (let t = lookup_int tierToInt tier;
         r = lookup_int rankToInt rank
     in add64 (mul64 (add64 (mul64 (sub64 t 1) 4) (sub64 r 1)) 100) lp)"

definition scoreToRank :: "int \<Rightarrow> string \<times> string \<times> int" where
  "scoreToRank score =
    (let tierIdx = score sdiv 400 + 1;
         rankIdx = (score smod 400) sdiv 100 + 1;
         lp = score smod 100
     in (lookup_str intToTier tierIdx, lookup_str intToRank rankIdx, lp))"

definition tiers :: "string list" where
  "tiers = map fst tierToInt"

definition divisions :: "string list" where
  "divisions = map fst rankToInt"

section \<open>The retrying request executor\<close>

text \<open>
  Durations are nanoseconds, as in Go's \<open>time.Duration\<close> (a 64-bit integer).  The
  arithmetic on durations that can leave the 64-bit range, the product of the parsed
  Retry-After value with \<open>time.Second\<close> and the doubling of a wait without a ceiling,
  wraps around.
\<close>

definition Second :: int where
  "Second = 1000000000"

text \<open>
  \<open>strings.TrimSpace\<close> removes the leading and the trailing white space of a string,
  as Unicode defines it, on the UTF-8 encoding of the string.  White space is: the ASCII
  characters tab, line feed, vertical tab, form feed, carriage return and space (the table
  \<open>asciiSpace\<close> of the library, here \<open>is_space\<close>); U+0085 and U+00A0, encoded
  in two bytes; U+1680, U+2000 to U+200A, U+2028, U+2029, U+202F, U+205F and U+3000,
  encoded in three bytes.  Any other byte sequence, valid or not, is not white space.
  Leading white space is removed first, then trailing white space of what is left, read
  backwards from the end.
\<close>

definition is_space :: "char \<Rightarrow> bool" where
  "is_space c = (of_char c \<in> {9, 10, 11, 12, 13, 32 :: nat})"

definition space2 :: "char \<Rightarrow> char \<Rightarrow> bool" where
  "space2 a b = (of_char a = (194 :: nat) \<and> of_char b \<in> {133, 160 :: nat})"

definition space3 :: "char \<Rightarrow> char \<Rightarrow> char \<Rightarrow> bool" where
  "space3 a b c =
    ((of_char a = (225 :: nat) \<and> of_char b = (154 :: nat) \<and> of_char c = (128 :: nat))
     \<or> (of_char a = (226 :: nat) \<and> of_char b = (128 :: nat)
          \<and> ((128 :: nat) \<le> of_char c \<and> of_char c \<le> (138 :: nat)
               \<or> of_char c \<in> {168, 169, 175 :: nat}))
     \<or> (of_char a = (226 :: nat) \<and> of_char b = (129 :: nat) \<and> of_char c = (159 :: nat))
     \<or> (of_char a = (227 :: nat) \<and> of_char b = (128 :: nat) \<and> of_char c = (128 :: nat)))"

fun trimLeftSpace :: "string \<Rightarrow> string" where
  "trimLeftSpace (a # b # c # s) =
    (if is_space a then trimLeftSpace (b # c # s)
     else if space2 a b then trimLeftSpace (c # s)
     else if space3 a b c then trimLeftSpace s
     else a # b # c # s)"
| "trimLeftSpace [a, b] =
    (if is_space a then trimLeftSpace [b] else if space2 a b then [] else [a, b])"
| "trimLeftSpace [a] = (if is_space a then [] else [a])"
| "trimLeftSpace [] = []"

text \<open>The same from the end, on the reversed string: \<open>c\<close> is the last byte.\<close>

fun trimRightSpace_rev :: "string \<Rightarrow> string" where
  "trimRightSpace_rev (c # b # a # s) =
    (if is_space c then trimRightSpace_rev (b # a # s)
     else if space2 b c then trimRightSpace_rev (a # s)
     else if space3 a b c then trimRightSpace_rev s
     else c # b # a # s)"
| "trimRightSpace_rev [c, b] =
    (if is_space c then trimRightSpace_rev [b] else if space2 b c then [] else [c, b])"
| "trimRightSpace_rev [c] = (if is_space c then [] else [c])"
| "trimRightSpace_rev [] = []"

definition TrimSpace :: "string \<Rightarrow> string" where
  "TrimSpace s = rev (trimRightSpace_rev (rev (trimLeftSpace s)))"

text \<open>
  The encodings of the white space characters, and byte sequences next to them that are
  not white space (among them U+200B, the zero width space, U+FEFF, and bytes that are
  no encoding at all).
\<close>

definition white_space :: "string list" where
  "white_space =
    [[CHR 0x09], [CHR 0x0A], [CHR 0x0B], [CHR 0x0C], [CHR 0x0D], [CHR 0x20],
     [CHR 0xC2, CHR 0x85], [CHR 0xC2, CHR 0xA0], [CHR 0xE1, CHR 0x9A, CHR 0x80],
     [CHR 0xE2, CHR 0x80, CHR 0x80], [CHR 0xE2, CHR 0x80, CHR 0x81],
     [CHR 0xE2, CHR 0x80, CHR 0x82], [CHR 0xE2, CHR 0x80, CHR 0x83],
     [CHR 0xE2, CHR 0x80, CHR 0x84], [CHR 0xE2, CHR 0x80, CHR 0x85],
     [CHR 0xE2, CHR 0x80, CHR 0x86], [CHR 0xE2, CHR 0x80, CHR 0x87],
     [CHR 0xE2, CHR 0x80, CHR 0x88], [CHR 0xE2, CHR 0x80, CHR 0x89],
     [CHR 0xE2, CHR 0x80, CHR 0x8A], [CHR 0xE2, CHR 0x80, CHR 0xA8],
     [CHR 0xE2, CHR 0x80, CHR 0xA9], [CHR 0xE2, CHR 0x80, CHR 0xAF],
     [CHR 0xE2, CHR 0x81, CHR 0x9F], [CHR 0xE3, CHR 0x80, CHR 0x80]]"

definition not_white_space :: "string list" where
  "not_white_space =
    [[CHR 0x08], [CHR 0x0E], [CHR 0x1F], [CHR 0x21], [CHR 0x85], [CHR 0xA0], [CHR 0xC2],
     [CHR 0xC2, CHR 0x84], [CHR 0xC2, CHR 0x86], [CHR 0xC2, CHR 0x9F], [CHR 0xC2, CHR 0xA1],
     [CHR 0xC3, CHR 0xA0], [CHR 0xE1, CHR 0x9A, CHR 0x81], [CHR 0xE1, CHR 0x9A, CHR 0x7F],
     [CHR 0xE1, CHR 0x9B, CHR 0x80], [CHR 0xE2, CHR 0x80, CHR 0x7F],
     [CHR 0xE2, CHR 0x80, CHR 0x8B], [CHR 0xE2, CHR 0x80, CHR 0xA7],
     [CHR 0xE2, CHR 0x80, CHR 0xAA], [CHR 0xE2, CHR 0x80, CHR 0xAE],
     [CHR 0xE2, CHR 0x80, CHR 0xB0], [CHR 0xE2, CHR 0x81, CHR 0x9E],
     [CHR 0xE2, CHR 0x81, CHR 0xA0], [CHR 0xE2, CHR 0x82, CHR 0x80],
     [CHR 0xE3, CHR 0x80, CHR 0x81], [CHR 0xE3, CHR 0x81, CHR 0x80],
     [CHR 0xE4, CHR 0x80, CHR 0x80], [CHR 0xE2, CHR 0x80], [CHR 0xEF, CHR 0xBB, CHR 0xBF]]"

text \<open>
  \<open>strconv.Atoi\<close>: an optional sign followed by at least one decimal digit, failing on
  any other character and on values outside the 64-bit range.
\<close>

fun parse_digits :: "string \<Rightarrow> int \<Rightarrow> int option" where
  "parse_digits [] acc = Some acc"
| "parse_digits (c # cs) acc =
    (let n = of_char c :: nat
     in if 48 \<le> n \<and> n \<le> 57 then parse_digits cs (acc * 10 + int (n - 48)) else None)"

definition Atoi :: "string \<Rightarrow> int option" where
  "Atoi s =
    (let neg = (s \<noteq> [] \<and> hd s = CHR ''-'');
         ds = (if s \<noteq> [] \<and> (hd s = CHR ''-'' \<or> hd s = CHR ''+'') then tl s else s)
     in if ds = [] then None
        else case parse_digits ds 0 of
               None \<Rightarrow> None
             | Some n \<Rightarrow>
                 (let v = (if neg then - n else n)
                  in if - (2 ^ 63) \<le> v \<and> v < 2 ^ 63 then Some v else None))"

text \<open>
  What one attempt observes: the time \<open>limiter.Wait\<close> slept, and the pair returned by
  \<open>client.Do\<close>, a response (or nil) and whether the error is non-nil (\<open>client.Do\<close>
  returns a nil response only together with an error).  Of a response the
  executor reads the status code and the Retry-After header (\<open>Header.Get\<close> gives the empty
  string when the header is absent).
\<close>

record response =
  StatusCode :: int
  RetryAfter :: string

record attempt =
  limiter_slept :: int
  got :: "response option"
  failed :: bool

record Counters =
  planned :: int
  attempts :: int
  completed :: int
  retries :: int
  waitRL :: int
  wait429 :: int

definition NewCounters :: Counters where
  "NewCounters = \<lparr>planned = 0, attempts = 0, completed = 0, retries = 0, waitRL = 0, wait429 = 0\<rparr>"

definition AddRateWait :: "int \<Rightarrow> Counters \<Rightarrow> Counters" where
  "AddRateWait d c = (if d > 0 then c\<lparr>waitRL := waitRL c + d\<rparr> else c)"

definition Add429Wait :: "int \<Rightarrow> Counters \<Rightarrow> Counters" where
  "Add429Wait d c = (if d > 0 then c\<lparr>wait429 := wait429 c + d\<rparr> else c)"

definition RecordAttempt :: "Counters \<Rightarrow> Counters" where
  "RecordAttempt c = c\<lparr>attempts := attempts c + 1\<rparr>"

definition RecordCompleted :: "Counters \<Rightarrow> Counters" where
  "RecordCompleted c = c\<lparr>completed := completed c + 1\<rparr>"

definition RecordRetry :: "Counters \<Rightarrow> Counters" where
  "RecordRetry c = c\<lparr>retries := retries c + 1\<rparr>"

text \<open>
  The calls of \<open>time.Sleep\<close> made by the executor itself, in order, each with the
  duration it was given: after a 429 response, or as a backoff.
\<close>

datatype sleep = RateLimitSleep int | BackoffSleep int

record exec =
  tries :: int
  backoff :: int
  lastStatus :: int
  sleeps :: "sleep list"
  counters :: Counters

text \<open>
  How one pass through the loop body ends: with a return of the response (or nil) and the
  error (the status it carries, or nil), or with the next iteration.
\<close>

datatype flow = Return "response option" "int option" | Continue

text \<open>The wait chosen in the 429 branch, from the Retry-After header.\<close>

definition retryAfterWait :: "string \<Rightarrow> int" where
  "retryAfterWait h =
    (let ra = TrimSpace h;
         wait = (if ra \<noteq> [] then (case Atoi ra of Some v \<Rightarrow> wrap64 (v * Second) | None \<Rightarrow> 0)
                 else 0)
     in if wait = 0 then 2 * Second else wait)"

text \<open>
  The tail of the loop body, shared by the 5xx branch and the fall-through for transport
  failures and other statuses: give up in best-effort mode, stop at the attempt bound,
  else sleep the backoff and double it while it is below 30 seconds.
\<close>

definition backoff_or_stop :: "bool \<Rightarrow> int \<Rightarrow> exec \<Rightarrow> flow \<times> exec" where
  "backoff_or_stop skipOnLimit maxRetry st =
    (if skipOnLimit then (Return None None, st)
     else if maxRetry > 0 \<and> tries st \<ge> maxRetry then (Return None (Some (lastStatus st)), st)
     else (Continue,
           st\<lparr>sleeps := sleeps st @ [BackoffSleep (backoff st)],
              backoff := (if backoff st < 30 * Second then backoff st * 2 else backoff st)\<rparr>))"

definition attempt_step :: "bool \<Rightarrow> int \<Rightarrow> exec \<Rightarrow> attempt \<Rightarrow> flow \<times> exec" where
  "attempt_step skipOnLimit maxRetry st0 a =
    (let st = st0\<lparr>counters := RecordAttempt (AddRateWait (limiter_slept a) (counters st0)),
                  tries := tries st0 + 1\<rparr>
     in case got a of
          None \<Rightarrow> backoff_or_stop skipOnLimit maxRetry st
        | Some r \<Rightarrow>
            if \<not> failed a \<and> StatusCode r = 200
            then (Return (Some r) None, st\<lparr>counters := RecordCompleted (counters st)\<rparr>)
            else
              (let st = st\<lparr>lastStatus := StatusCode r\<rparr>
               in if StatusCode r = 404
                  then (Return (Some r) None, st\<lparr>counters := RecordCompleted (counters st)\<rparr>)
                  else if StatusCode r = 429
                  then
                    (let wait = retryAfterWait (RetryAfter r);
                         st = st\<lparr>counters := Add429Wait wait (RecordRetry (counters st))\<rparr>
                     in if skipOnLimit then (Return None None, st)
                        else (Continue, st\<lparr>sleeps := sleeps st @ [RateLimitSleep wait]\<rparr>))
                  else backoff_or_stop skipOnLimit maxRetry st))"

text \<open>
  The loop, driven by the observations of the successive attempts.  The source loops until
  a branch returns; when the observations run out the call has not returned yet.
\<close>

datatype outcome = Done "response option" "int option" | Pending

fun retry_loop :: "bool \<Rightarrow> int \<Rightarrow> exec \<Rightarrow> attempt list \<Rightarrow> outcome \<times> exec" where
  "retry_loop skipOnLimit maxRetry st [] = (Pending, st)"
| "retry_loop skipOnLimit maxRetry st (a # script) =
    (case attempt_step skipOnLimit maxRetry st a of
       (Return r e, st') \<Rightarrow> (Done r e, st')
     | (Continue, st') \<Rightarrow> retry_loop skipOnLimit maxRetry st' script)"

definition doRequestWithRetry ::
  "bool \<Rightarrow> Counters \<Rightarrow> int \<Rightarrow> attempt list \<Rightarrow> outcome \<times> exec" where
  "doRequestWithRetry skipOnLimit cnt maxRetry script =
    retry_loop skipOnLimit maxRetry
      \<lparr>tries = 0, backoff = 1 * Second, lastStatus = 0, sleeps = [], counters = cnt\<rparr> script"

text \<open>Classes of observations, and the observations used in examples.\<close>

definition is_5xx :: "attempt \<Rightarrow> bool" where
  "is_5xx a = (case got a of None \<Rightarrow> False | Some r \<Rightarrow> 500 \<le> StatusCode r \<and> StatusCode r < 600)"

definition is_429 :: "attempt \<Rightarrow> bool" where
  "is_429 a = (case got a of None \<Rightarrow> False | Some r \<Rightarrow> StatusCode r = 429)"

definition status_of :: "attempt \<Rightarrow> int" where
  "status_of a = (case got a of None \<Rightarrow> 0 | Some r \<Rightarrow> StatusCode r)"

definition header_of :: "attempt \<Rightarrow> string" where
  "header_of a = (case got a of None \<Rightarrow> [] | Some r \<Rightarrow> RetryAfter r)"

definition backoff_sleeps :: "sleep list \<Rightarrow> int list" where
  "backoff_sleeps ss = concat (map (\<lambda>s. case s of BackoffSleep d \<Rightarrow> [d] | RateLimitSleep d \<Rightarrow> []) ss)"

definition nth_backoff :: "nat \<Rightarrow> int" where
  "nth_backoff k = min (2 ^ k) 32 * Second"

definition backoff_inv :: "exec \<Rightarrow> bool" where
  "backoff_inv st =
    (backoff st = nth_backoff (length (backoff_sleeps (sleeps st))) \<and>
     backoff_sleeps (sleeps st) = map nth_backoff [0..<length (backoff_sleeps (sleeps st))])"

definition is_ok :: "attempt \<Rightarrow> bool" where
  "is_ok a = (case got a of None \<Rightarrow> False | Some r \<Rightarrow> \<not> failed a \<and> StatusCode r = 200)"

definition respond :: "int \<Rightarrow> string \<Rightarrow> attempt" where
  "respond status hdr = \<lparr>limiter_slept = 0, got = Some \<lparr>StatusCode = status, RetryAfter = hdr\<rparr>, failed = False\<rparr>"

definition transport_failure :: attempt where
  "transport_failure = \<lparr>limiter_slept = 0, got = None, failed = True\<rparr>"


section \<open>The executor without a limiter\<close>

text \<open>
  One copy of the command-line program has an executor without limiter and counters: a
  loop over at most \<open>maxRetry\<close> attempts.  A 200 or 404 response is returned.  After a
  429 or 5xx response it returns nil, nil in best-effort mode and else sleeps \<open>wait\<close>
  and doubles it.  After a transport failure or a response of another status it sleeps
  \<open>wait\<close>, in best-effort mode too, and goes on.  When the attempts are used up it
  returns nil, nil in best-effort mode and else an error carrying the last status.  The
  state is \<open>wait\<close> (here \<open>wait_ns\<close>, in nanoseconds), \<open>lastStatus\<close> and the
  durations given to \<open>time.Sleep\<close> so far.
\<close>

record plain_exec =
  wait_ns :: int
  last_status :: int
  slept_for :: "int list"

definition plain_step :: "bool \<Rightarrow> plain_exec \<Rightarrow> attempt \<Rightarrow> flow \<times> plain_exec" where
  "plain_step skipOnLimit st a =
    (case got a of
       None \<Rightarrow> (Continue, st\<lparr>slept_for := slept_for st @ [wait_ns st]\<rparr>)
     | Some r \<Rightarrow>
         if \<not> failed a \<and> StatusCode r = 200 then (Return (Some r) None, st)
         else
           (let st = st\<lparr>last_status := StatusCode r\<rparr>
            in if StatusCode r = 404 then (Return (Some r) None, st)
               else if StatusCode r = 429 \<or> (StatusCode r \<ge> 500 \<and> StatusCode r < 600)
               then
                 (if skipOnLimit then (Return None None, st)
                  else (Continue, st\<lparr>slept_for := slept_for st @ [wait_ns st],
                                      wait_ns := wrap64 (wait_ns st * 2)\<rparr>))
               else (Continue, st\<lparr>slept_for := slept_for st @ [wait_ns st]\<rparr>)))"

definition plain_exit :: "bool \<Rightarrow> plain_exec \<Rightarrow> outcome \<times> plain_exec" where
  "plain_exit skipOnLimit st =
    (if skipOnLimit then (Done None None, st) else (Done None (Some (last_status st)), st))"

fun plain_loop :: "bool \<Rightarrow> int \<Rightarrow> int \<Rightarrow> plain_exec \<Rightarrow> attempt list \<Rightarrow> outcome \<times> plain_exec" where
  "plain_loop skipOnLimit maxRetry i st [] =
    (if i < maxRetry then (Pending, st) else plain_exit skipOnLimit st)"
| "plain_loop skipOnLimit maxRetry i st (a # script) =
    (if i < maxRetry
     then (case plain_step skipOnLimit st a of
             (Return r e, st') \<Rightarrow> (Done r e, st')
           | (Continue, st') \<Rightarrow> plain_loop skipOnLimit maxRetry (i + 1) st' script)
     else plain_exit skipOnLimit st)"

definition doRequestWithRetry_plain :: "bool \<Rightarrow> int \<Rightarrow> attempt list \<Rightarrow> outcome \<times> plain_exec" where
  "doRequestWithRetry_plain skipOnLimit maxRetry script =
    plain_loop skipOnLimit maxRetry 0 \<lparr>wait_ns = 1 * Second, last_status = 0, slept_for = []\<rparr> script"
section \<open>The call sites of the executor\<close>

text \<open>
  What a call site does with the pair returned by \<open>doRequestWithRetry\<close>: decode the
  response and go on; \<open>continue\<close> with the next iteration of the enclosing loop,
  silently or after a log line; end the process with \<open>log.Fatalf\<close>; return an error
  from \<open>analyze\<close>; or leave the value at its zero default and go on with the player.
\<close>

datatype action = Decode | SkipIteration | LogAndSkip | LogFatal | ReturnError | KeepDefault

text \<open>
  The call sites of the command-line program, in source order: account, match list, match
  detail (champions and lanes), rank, mastery, match detail (participants), the rank of
  each participant, match detail (champions by lane).  The copy of the program whose
  executor has no limiter has the same eight call sites, with the same tests.
\<close>

definition cli_account_site :: "response option \<Rightarrow> int option \<Rightarrow> action" where
  "cli_account_site resp err =
    (if err \<noteq> None then LogFatal
     else case resp of
            None \<Rightarrow> SkipIteration
          | Some r \<Rightarrow> if StatusCode r \<noteq> 200 then LogFatal else Decode)"

definition cli_match_list_site :: "response option \<Rightarrow> int option \<Rightarrow> action" where
  "cli_match_list_site resp err =
    (if err \<noteq> None then LogFatal
     else case resp of
            None \<Rightarrow> SkipIteration
          | Some r \<Rightarrow> if StatusCode r \<noteq> 200 then LogFatal else Decode)"

definition cli_match_detail_site :: "response option \<Rightarrow> int option \<Rightarrow> action" where
  "cli_match_detail_site resp err =
    (if err \<noteq> None then LogFatal
     else case resp of
            None \<Rightarrow> SkipIteration
          | Some r \<Rightarrow> if StatusCode r \<noteq> 200 then LogAndSkip else Decode)"

definition cli_rank_site :: "response option \<Rightarrow> int option \<Rightarrow> action" where
  "cli_rank_site resp err =
    (if err \<noteq> None then LogFatal
     else case resp of
            None \<Rightarrow> SkipIteration
          | Some r \<Rightarrow> if StatusCode r \<noteq> 200 then LogFatal else Decode)"

definition cli_mastery_site :: "response option \<Rightarrow> int option \<Rightarrow> action" where
  "cli_mastery_site resp err =
    (if err \<noteq> None then LogFatal
     else case resp of
            None \<Rightarrow> SkipIteration
          | Some r \<Rightarrow> if StatusCode r \<noteq> 200 then LogFatal else Decode)"

definition cli_participants_site :: "response option \<Rightarrow> int option \<Rightarrow> action" where
  "cli_participants_site resp err =
    (if err \<noteq> None then LogFatal
     else case resp of
            None \<Rightarrow> SkipIteration
          | Some r \<Rightarrow> if StatusCode r \<noteq> 200 then LogAndSkip else Decode)"

definition cli_participant_rank_site :: "response option \<Rightarrow> int option \<Rightarrow> action" where
  "cli_participant_rank_site resp err =
    (if err \<noteq> None then LogAndSkip
     else case resp of
            None \<Rightarrow> SkipIteration
          | Some r \<Rightarrow> if StatusCode r \<noteq> 200 then LogAndSkip else Decode)"

definition cli_lane_champions_site :: "response option \<Rightarrow> int option \<Rightarrow> action" where
  "cli_lane_champions_site resp err =
    (if err \<noteq> None then LogAndSkip
     else case resp of
            None \<Rightarrow> SkipIteration
          | Some r \<Rightarrow> if StatusCode r \<noteq> 200 then SkipIteration else Decode)"

definition cli_call_sites :: "(response option \<Rightarrow> int option \<Rightarrow> action) list" where
  "cli_call_sites =
    [cli_account_site, cli_match_list_site, cli_match_detail_site, cli_rank_site, cli_mastery_site,
     cli_participants_site, cli_participant_rank_site, cli_lane_champions_site]"

text \<open>
  The call sites of the web service's \<open>analyze\<close>: account lookup, match list, match
  detail, rank, mastery (twice) and the rank of each participant.
\<close>

definition web_account_site :: "response option \<Rightarrow> int option \<Rightarrow> action" where
  "web_account_site resp err =
    (if err \<noteq> None then ReturnError
     else case resp of
            None \<Rightarrow> ReturnError
          | Some r \<Rightarrow>
              if StatusCode r \<noteq> 200 \<and> StatusCode r \<noteq> 404 then ReturnError
              else if StatusCode r = 200 then Decode else SkipIteration)"

definition web_match_list_site :: "response option \<Rightarrow> int option \<Rightarrow> action" where
  "web_match_list_site resp err =
    (if err \<noteq> None then ReturnError
     else case resp of
            None \<Rightarrow> ReturnError
          | Some r \<Rightarrow> if StatusCode r \<noteq> 200 then ReturnError else Decode)"

definition web_match_detail_site :: "response option \<Rightarrow> int option \<Rightarrow> action" where
  "web_match_detail_site resp err =
    (if err \<noteq> None then SkipIteration
     else case resp of
            None \<Rightarrow> SkipIteration
          | Some r \<Rightarrow> if StatusCode r \<noteq> 200 then SkipIteration else Decode)"

definition web_rank_site :: "response option \<Rightarrow> int option \<Rightarrow> action" where
  "web_rank_site resp err =
    (if err = None then
       (case resp of
          None \<Rightarrow> KeepDefault
        | Some r \<Rightarrow> if StatusCode r = 200 then Decode else KeepDefault)
     else KeepDefault)"

definition web_mastery_site :: "response option \<Rightarrow> int option \<Rightarrow> action" where
  "web_mastery_site resp err =
    (if err = None then
       (case resp of
          None \<Rightarrow> KeepDefault
        | Some r \<Rightarrow> if StatusCode r = 200 then Decode else KeepDefault)
     else KeepDefault)"

definition web_mastery_names_site :: "response option \<Rightarrow> int option \<Rightarrow> action" where
  "web_mastery_names_site resp err =
    (if err = None then
       (case resp of
          None \<Rightarrow> KeepDefault
        | Some r \<Rightarrow> if StatusCode r = 200 then Decode else KeepDefault)
     else KeepDefault)"

definition web_participant_rank_site :: "response option \<Rightarrow> int option \<Rightarrow> action" where
  "web_participant_rank_site resp err =
    (if err \<noteq> None then SkipIteration
     else case resp of
            None \<Rightarrow> SkipIteration
          | Some r \<Rightarrow> if StatusCode r \<noteq> 200 then SkipIteration else Decode)"

section \<open>The skill score of a player\<close>

text \<open>
  The records decoded from the provider: the entries of the league endpoint and of the
  champion-mastery endpoint.
\<close>

record RankEntry =
  QueueType :: string
  Tier :: string
  Rank :: string
  LeaguePoints :: int

record Mastery =
  ChampionID :: int
  ChampionLevel :: int
  ChampionPoints :: int

text \<open>
  The loop over rank entries that stops at the first entry of the ranked solo queue.
\<close>

fun first_solo :: "RankEntry list \<Rightarrow> RankEntry option" where
  "first_solo [] = None"
| "first_solo (entry # rest) =
    (if QueueType entry = ''RANKED_SOLO_5x5'' then Some entry else first_solo rest)"

definition currentRankScore :: "RankEntry list \<Rightarrow> int" where
  "currentRankScore rankData =
    (case first_solo rankData of
       None \<Rightarrow> 0
     | Some entry \<Rightarrow> rankScore (Tier entry) (Rank entry) (LeaguePoints entry))"

text \<open>
  The loop over the participants of the recent matches: the argument holds, for each
  participant whose rank request succeeded, the decoded entries.  It accumulates
  \<open>totalScore\<close> and \<open>count\<close> (here \<open>cnt\<close>).
\<close>

fun collect_scores :: "int \<times> int \<Rightarrow> RankEntry list list \<Rightarrow> int \<times> int" where
  "collect_scores (totalScore, cnt) [] = (totalScore, cnt)"
| "collect_scores (totalScore, cnt) (rankData # rest) =
    (case first_solo rankData of
       None \<Rightarrow> collect_scores (totalScore, cnt) rest
     | Some entry \<Rightarrow>
         collect_scores
           (add64 totalScore (rankScore (Tier entry) (Rank entry) (LeaguePoints entry)), add64 cnt 1)
           rest)"

text \<open>
  \<open>sort.Slice\<close> with the comparison \<open>less\<close> (here \<open>lessf\<close>).  A slice of
  at most 12 elements is sorted by insertion: each element in turn is swapped with its
  left neighbour as long as \<open>less\<close> holds of it and that neighbour.  \<open>sink\<close> is
  this inner loop, on the part of the slice before the element, which is kept reversed
  (its last element first).
\<close>

fun sink :: "('a \<Rightarrow> 'a \<Rightarrow> bool) \<Rightarrow> 'a \<Rightarrow> 'a list \<Rightarrow> 'a list" where
  "sink lessf x [] = [x]"
| "sink lessf x (y # ys) = (if lessf x y then y # sink lessf x ys else x # y # ys)"

definition insertionSort :: "('a \<Rightarrow> 'a \<Rightarrow> bool) \<Rightarrow> 'a list \<Rightarrow> 'a list" where
  "insertionSort lessf xs = rev (foldl (\<lambda>before x. sink lessf x before) [] xs)"

text \<open>
  A slice of more than 12 elements is sorted by the library's pattern-defeating quicksort,
  which is not part of this development: \<open>long\<close> stands for what it returns on the
  slice.  It is not stable; the properties below take from it only what they state.
\<close>

definition sort_Slice :: "('a list \<Rightarrow> 'a list) \<Rightarrow> ('a \<Rightarrow> 'a \<Rightarrow> bool) \<Rightarrow> 'a list \<Rightarrow> 'a list" where
  "sort_Slice long lessf xs = (if length xs \<le> 12 then insertionSort lessf xs else long xs)"

text \<open>The sum over the first three entries of the slice.\<close>

definition first_three_points :: "Mastery list \<Rightarrow> int" where
  "first_three_points masteries = foldl (\<lambda>s m. add64 s (ChampionPoints m)) 0 (take 3 masteries)"

definition topMastery :: "(Mastery list \<Rightarrow> Mastery list) \<Rightarrow> Mastery list \<Rightarrow> int" where
  "topMastery long masteries =
    (if length masteries > 0
     then first_three_points
            (sort_Slice long (\<lambda>a b. ChampionPoints a > ChampionPoints b) masteries)
     else 0)"

definition skillScore ::
  "(Mastery list \<Rightarrow> Mastery list) \<Rightarrow> RankEntry list \<Rightarrow> RankEntry list list \<Rightarrow> Mastery list \<Rightarrow> int" where
  "skillScore long rankData participants masteries =
    (let (totalScore, cnt) = collect_scores (0, 0) participants;
         avgRankScore = (if cnt > 0 then totalScore sdiv cnt else 0)
     in add64 (add64 (mul64 (currentRankScore rankData) 2) avgRankScore)
          (topMastery long masteries sdiv 1000))"

text \<open>
  The skill score as the specification words it: twice the rank score of the player's
  ranked-solo entry (0 when there is none), plus the truncating mean of the rank scores
  collected from the participants (0 when there are none), plus a thousandth, truncated, of
  the sum of the three largest champion points.  The sums and the product are those of
  Go's \<open>int\<close>.
\<close>

definition is_solo :: "RankEntry \<Rightarrow> bool" where
  "is_solo entry = (QueueType entry = ''RANKED_SOLO_5x5'')"

definition entry_score :: "RankEntry \<Rightarrow> int" where
  "entry_score entry = rankScore (Tier entry) (Rank entry) (LeaguePoints entry)"

definition spec_currentRankScore :: "RankEntry list \<Rightarrow> int" where
  "spec_currentRankScore rankData =
    (case find is_solo rankData of None \<Rightarrow> 0 | Some entry \<Rightarrow> entry_score entry)"

definition spec_collected :: "RankEntry list list \<Rightarrow> int list" where
  "spec_collected participants =
    concat (map (\<lambda>rankData. case find is_solo rankData of None \<Rightarrow> [] | Some entry \<Rightarrow> [entry_score entry])
      participants)"

definition spec_avgMatchRankScore :: "RankEntry list list \<Rightarrow> int" where
  "spec_avgMatchRankScore participants =
    (let scores = spec_collected participants
     in if scores = [] then 0 else wrap64 (sum_list scores) sdiv int (length scores))"

definition spec_topMasterySum :: "Mastery list \<Rightarrow> int" where
  "spec_topMasterySum masteries =
    wrap64 (sum_list (take 3 (rev (sort (map ChampionPoints masteries)))))"

definition spec_SkillScore :: "RankEntry list \<Rightarrow> RankEntry list list \<Rightarrow> Mastery list \<Rightarrow> int" where
  "spec_SkillScore rankData participants masteries =
    wrap64 (2 * spec_currentRankScore rankData + spec_avgMatchRankScore participants
      + spec_topMasterySum masteries sdiv 1000)"

text \<open>
  The same with the sums, the product and the rank scores in the unbounded integers.
\<close>

definition exact_rankScore :: "RankEntry \<Rightarrow> int" where
  "exact_rankScore entry =
    ((lookup_int tierToInt (Tier entry) - 1) * 4 + (lookup_int rankToInt (Rank entry) - 1)) * 100
      + LeaguePoints entry"

definition exact_collected :: "RankEntry list list \<Rightarrow> int list" where
  "exact_collected participants =
    concat (map (\<lambda>rankData. case find is_solo rankData of None \<Rightarrow> [] | Some entry \<Rightarrow> [exact_rankScore entry])
      participants)"

definition exact_SkillScore :: "RankEntry list \<Rightarrow> RankEntry list list \<Rightarrow> Mastery list \<Rightarrow> int" where
  "exact_SkillScore rankData participants masteries =
    2 * (case find is_solo rankData of None \<Rightarrow> 0 | Some entry \<Rightarrow> exact_rankScore entry)
    + (if exact_collected participants = [] then 0
       else sum_list (exact_collected participants) sdiv int (length (exact_collected participants)))
    + sum_list (take 3 (rev (sort (map ChampionPoints masteries)))) sdiv 1000"

text \<open>
  Inputs on which no sum leaves the 64-bit range: league points and champion points of
  magnitude at most \<open>2 ^ 40\<close>, and at most \<open>2 ^ 20\<close> participants.
\<close>

definition small_entry :: "RankEntry \<Rightarrow> bool" where
  "small_entry entry = (\<bar>LeaguePoints entry\<bar> \<le> 2 ^ 40)"

definition small_input :: "RankEntry list \<Rightarrow> RankEntry list list \<Rightarrow> Mastery list \<Rightarrow> bool" where
  "small_input rankData participants masteries =
    (list_all small_entry rankData
     \<and> list_all (list_all small_entry) participants
     \<and> length participants \<le> 2 ^ 20
     \<and> list_all (\<lambda>m. \<bar>ChampionPoints m\<bar> \<le> 2 ^ 40) masteries)"

text \<open>
  The order that \<open>sort.Slice\<close> establishes when \<open>less\<close> is a strict weak order
  on the elements: \<open>less\<close> holds of no element and an earlier one.  With the comparison
  \<open>key a > key b\<close> on integer keys it is the descending order of the keys.
\<close>

definition descending :: "('a \<Rightarrow> 'a \<Rightarrow> bool) \<Rightarrow> 'a list \<Rightarrow> bool" where
  "descending lessf xs = sorted_wrt (\<lambda>x y. \<not> lessf y x) xs"

definition strict_weak_on :: "'a list \<Rightarrow> ('a \<Rightarrow> 'a \<Rightarrow> bool) \<Rightarrow> bool" where
  "strict_weak_on xs lessf =
    ((\<forall>a \<in> set xs. \<forall>b \<in> set xs. \<not> (lessf a b \<and> lessf b a))
     \<and> (\<forall>a \<in> set xs. \<forall>b \<in> set xs. \<forall>c \<in> set xs. lessf a c \<longrightarrow> lessf a b \<or> lessf b c))"

definition sorted_desc_by :: "('a \<Rightarrow> int) \<Rightarrow> 'a list \<Rightarrow> bool" where
  "sorted_desc_by key xs = sorted (rev (map key xs))"

text \<open>A player used as an example.\<close>

definition sample_rankData :: "RankEntry list" where
  "sample_rankData =
    [\<lparr>QueueType = ''RANKED_FLEX_SR'', Tier = ''SILVER'', Rank = ''I'', LeaguePoints = 10\<rparr>,
     \<lparr>QueueType = ''RANKED_SOLO_5x5'', Tier = ''GOLD'', Rank = ''II'', LeaguePoints = 50\<rparr>]"

definition sample_participants :: "RankEntry list list" where
  "sample_participants =
    [[\<lparr>QueueType = ''RANKED_SOLO_5x5'', Tier = ''PLATINUM'', Rank = ''IV'', LeaguePoints = 0\<rparr>],
     [],
     [\<lparr>QueueType = ''RANKED_FLEX_SR'', Tier = ''IRON'', Rank = ''I'', LeaguePoints = 1\<rparr>,
      \<lparr>QueueType = ''RANKED_SOLO_5x5'', Tier = ''GOLD'', Rank = ''IV'', LeaguePoints = 75\<rparr>]]"

definition mastery :: "int \<Rightarrow> int \<Rightarrow> Mastery" where
  "mastery champion points = \<lparr>ChampionID = champion, ChampionLevel = 5, ChampionPoints = points\<rparr>"

definition sample_masteries :: "Mastery list" where
  "sample_masteries = [mastery 1 5000, mastery 2 120000, mastery 3 7999, mastery 4 120000]"


text \<open>
  A player with 13 mastery entries, of 1000, 2000, ..., 13000 points, and a player whose
  ranked-solo entry carries the largest league points a Go \<open>int\<close> can hold.
\<close>

definition many_masteries :: "Mastery list" where
  "many_masteries = map (\<lambda>k. mastery k (k * 1000)) [1, 2, 3, 4, 5, 6, 7, 8, 9, 10, 11, 12, 13]"

definition huge_rankData :: "RankEntry list" where
  "huge_rankData =
    [\<lparr>QueueType = ''RANKED_SOLO_5x5'', Tier = ''GOLD'', Rank = ''II'', LeaguePoints = 2 ^ 63 - 1\<rparr>]"
section \<open>The team split of the programs\<close>

text \<open>
  What the team split reads of an aggregated player (the other entries of the map are
  only passed on to the output).
\<close>

record PlayerData =
  name :: string
  skill_score :: int
  main_lanes :: "string list"

text \<open>
  The loop over the players sorted by descending skill score: even positions go to team
  A, odd positions to team B.  \<open>sumA\<close> and \<open>sumB\<close> are Go \<open>int\<close>s.
\<close>

fun alternate ::
  "nat \<Rightarrow> PlayerData list \<Rightarrow> PlayerData list \<times> PlayerData list \<times> int \<times> int
     \<Rightarrow> PlayerData list \<times> PlayerData list \<times> int \<times> int" where
  "alternate i [] st = st"
| "alternate i (p # ps) (teamA, teamB, sumA, sumB) =
    (if i mod 2 = 0
     then alternate (i + 1) ps (teamA @ [p], teamB, add64 sumA (skill_score p), sumB)
     else alternate (i + 1) ps (teamA, teamB @ [p], sumA, add64 sumB (skill_score p)))"

text \<open>
  The split of the command-line program: nothing with fewer than two aggregated players,
  else the sort and the loop.  (The web service makes the test on the requested players
  instead.)  \<open>long\<close> is the library's sort of a slice of more than 12 elements.
\<close>

definition teamSplit ::
  "(PlayerData list \<Rightarrow> PlayerData list) \<Rightarrow> PlayerData list
     \<Rightarrow> (PlayerData list \<times> PlayerData list \<times> int \<times> int) option" where
  "teamSplit long allPlayerData =
    (if length allPlayerData < 2 then None
     else Some (alternate 0
                  (sort_Slice long (\<lambda>a b. skill_score a > skill_score b) allPlayerData)
                  ([], [], 0, 0)))"

section \<open>BalanceTeams\<close>

text \<open>
  \<open>BalanceTeams\<close> takes the players and a model; of the model only \<open>Predict\<close> is
  used, a function from players to scores.  The scores are \<open>float64\<close> values.  The
  arithmetic of \<open>float64\<close> is not part of this development: the type of the scores
  is a type variable, and the constants and operations that \<open>BalanceTeams\<close> uses are
  the fields of a record, \<open>0.0\<close>, \<open>math.MaxFloat64\<close>, \<open>+\<close>, \<open>-\<close>,
  \<open>math.Abs\<close>, \<open><\<close>, \<open><=\<close> and \<open>>\<close>.  The definitions assume nothing
  about them; each property states what it needs, so that rounding, infinities and NaN
  are covered by whatever the operations do.
\<close>

record 's float64 =
  f_zero :: 's
  f_max :: 's
  f_add :: "'s \<Rightarrow> 's \<Rightarrow> 's"
  f_sub :: "'s \<Rightarrow> 's \<Rightarrow> 's"
  f_abs :: "'s \<Rightarrow> 's"
  f_lt :: "'s \<Rightarrow> 's \<Rightarrow> bool"
  f_le :: "'s \<Rightarrow> 's \<Rightarrow> bool"
  f_gt :: "'s \<Rightarrow> 's \<Rightarrow> bool"

text \<open>The inner loop: the players whose bit is set in the mask go to team A.\<close>

fun split_by_mask ::
  "'s float64 \<Rightarrow> ('p \<Rightarrow> 's) \<Rightarrow> int \<Rightarrow> nat \<Rightarrow> 'p list \<Rightarrow> 'p list \<times> 'p list \<times> 's \<times> 's
     \<Rightarrow> 'p list \<times> 'p list \<times> 's \<times> 's" where
  "split_by_mask ops Predict msk i [] st = st"
| "split_by_mask ops Predict msk i (p # ps) (teamA, teamB, sumA, sumB) =
    (if msk AND push_bit i 1 \<noteq> 0
     then split_by_mask ops Predict msk (i + 1) ps
            (teamA @ [p], teamB, f_add ops sumA (Predict p), sumB)
     else split_by_mask ops Predict msk (i + 1) ps
            (teamA, teamB @ [p], sumA, f_add ops sumB (Predict p)))"

text \<open>The body of the loop over the masks, on \<open>(bestDiff, bestA, bestB)\<close>.\<close>

definition try_mask ::
  "'s float64 \<Rightarrow> ('p \<Rightarrow> 's) \<Rightarrow> 'p list \<Rightarrow> int \<Rightarrow> 's \<times> 'p list \<times> 'p list \<Rightarrow> 's \<times> 'p list \<times> 'p list" where
  "try_mask ops Predict players msk best =
    (let (teamA, teamB, sumA, sumB) =
           split_by_mask ops Predict msk 0 players ([], [], f_zero ops, f_zero ops)
     in if length teamA \<noteq> length teamB then best
        else (let diff = f_abs ops (f_sub ops sumA sumB)
              in if f_lt ops diff (fst best) then (diff, teamA, teamB) else best))"

function mask_loop ::
  "'s float64 \<Rightarrow> ('p \<Rightarrow> 's) \<Rightarrow> 'p list \<Rightarrow> int \<Rightarrow> int \<Rightarrow> 's \<times> 'p list \<times> 'p list
     \<Rightarrow> 's \<times> 'p list \<times> 'p list" where
  "mask_loop ops Predict players totl msk best =
    (if msk < totl
     then mask_loop ops Predict players totl (msk + 1) (try_mask ops Predict players msk best)
     else best)"
  by pat_completeness auto
termination
  by (relation "measure (\<lambda>(ops, Predict, players, totl, msk, best). nat (totl - msk))") auto

declare mask_loop.simps [simp del]

text \<open>
  The fallback: the players with their scores, sorted with the comparison
  \<open>arr[i].s > arr[j].s\<close>, each assigned to team A when \<open>sumA <= sumB\<close> and to team B
  otherwise.
\<close>

fun greedy_loop ::
  "'s float64 \<Rightarrow> ('p \<times> 's) list \<Rightarrow> 'p list \<times> 'p list \<times> 's \<times> 's \<Rightarrow> 'p list \<times> 'p list \<times> 's \<times> 's" where
  "greedy_loop ops [] st = st"
| "greedy_loop ops (a # arr) (teamA, teamB, sumA, sumB) =
    (if f_le ops sumA sumB
     then greedy_loop ops arr (teamA @ [fst a], teamB, f_add ops sumA (snd a), sumB)
     else greedy_loop ops arr (teamA, teamB @ [fst a], sumA, f_add ops sumB (snd a)))"

definition greedy_fallback ::
  "(('p \<times> 's) list \<Rightarrow> ('p \<times> 's) list) \<Rightarrow> 's float64 \<Rightarrow> ('p \<Rightarrow> 's) \<Rightarrow> 'p list \<Rightarrow> 'p list \<times> 'p list" where
  "greedy_fallback long ops Predict players =
    (let arr = map (\<lambda>p. (p, Predict p)) players;
         (teamA, teamB, sumA, sumB) =
           greedy_loop ops (sort_Slice long (\<lambda>a b. f_gt ops (snd a) (snd b)) arr)
             ([], [], f_zero ops, f_zero ops)
     in (teamA, teamB))"

definition BalanceTeams ::
  "(('p \<times> 's) list \<Rightarrow> ('p \<times> 's) list) \<Rightarrow> 's float64 \<Rightarrow> ('p \<Rightarrow> 's) \<Rightarrow> 'p list \<Rightarrow> 'p list \<times> 'p list" where
  "BalanceTeams long ops Predict players =
    (let n = length players;
         (bestDiff, bestA, bestB) =
           (if n \<le> 10
            then mask_loop ops Predict players (push_bit n 1) 0 (f_max ops, [], [])
            else (f_max ops, [], []))
     in if n \<le> 10 \<and> length bestA > 0 then (bestA, bestB)
        else greedy_fallback long ops Predict players)"

text \<open>
  The score sum of a team as the loops accumulate it: from \<open>0.0\<close>, adding the scores of
  the members in the order in which they joined.
\<close>

definition f_sum :: "'s float64 \<Rightarrow> ('p \<Rightarrow> 's) \<Rightarrow> 'p list \<Rightarrow> 's" where
  "f_sum ops score team = foldl (\<lambda>s p. f_add ops s (score p)) (f_zero ops) team"

text \<open>
  The rule of the specification for the greedy strategy: each successive player goes to
  the team whose members' scores sum to less, to team A when the sums are equal (when
  the sum of team A is \<open><=\<close> that of team B).
\<close>

definition spec_greedy :: "'s float64 \<Rightarrow> ('p \<Rightarrow> 's) \<Rightarrow> 'p list \<Rightarrow> 'p list \<times> 'p list" where
  "spec_greedy ops score ps =
    foldl (\<lambda>(teamA, teamB) p.
             if f_le ops (f_sum ops score teamA) (f_sum ops score teamB)
             then (teamA @ [p], teamB) else (teamA, teamB @ [p]))
      ([], []) ps"

text \<open>
  The players paired with their scores, in the order in which the fallback of
  \<open>BalanceTeams\<close> goes through them.
\<close>

definition scored :: "('p \<Rightarrow> 's) \<Rightarrow> 'p list \<Rightarrow> ('p \<times> 's) list" where
  "scored Predict players = map (\<lambda>p. (p, Predict p)) players"

definition by_score :: "'s float64 \<Rightarrow> 'p \<times> 's \<Rightarrow> 'p \<times> 's \<Rightarrow> bool" where
  "by_score ops a b = f_gt ops (snd a) (snd b)"

definition greedy_order ::
  "(('p \<times> 's) list \<Rightarrow> ('p \<times> 's) list) \<Rightarrow> 's float64 \<Rightarrow> ('p \<Rightarrow> 's) \<Rightarrow> 'p list \<Rightarrow> ('p \<times> 's) list" where
  "greedy_order long ops Predict players = sort_Slice long (by_score ops) (scored Predict players)"

text \<open>The elements of a list at the positions, counted from 0, that satisfy a predicate.\<close>

definition at_positions :: "(nat \<Rightarrow> bool) \<Rightarrow> 'a list \<Rightarrow> 'a list" where
  "at_positions P xs = map snd (filter (\<lambda>(i, x). P i) (enumerate 0 xs))"

text \<open>A roster with the skill scores 1500, 1000, 1300, 1200.\<close>

definition player :: "string \<Rightarrow> int \<Rightarrow> PlayerData" where
  "player nm score = \<lparr>name = nm, skill_score = score, main_lanes = []\<rparr>"

definition sample_roster :: "PlayerData list" where
  "sample_roster = [player ''A'' 1500, player ''D'' 1000, player ''B'' 1300, player ''C'' 1200]"

text \<open>
  A split of a roster into two teams, given by a selection: one truth value for each
  position, true for team A.  \<open>mask_sel\<close> is the selection that a mask stands for.
  \<open>team_diff\<close> is the absolute difference of the score sums of two teams, and
  \<open>sel_diff\<close> that of the teams of a selection.
\<close>

definition pick :: "bool list \<Rightarrow> 'a list \<Rightarrow> 'a list" where
  "pick sel xs = map fst (filter snd (zip xs sel))"

definition mask_sel :: "int \<Rightarrow> nat \<Rightarrow> bool list" where
  "mask_sel msk n = map (bit msk) [0..<n]"

definition balanced :: "bool list \<Rightarrow> 'a list \<Rightarrow> bool" where
  "balanced sel xs = (length (pick sel xs) = length (pick (map Not sel) xs))"

definition team_diff :: "'s float64 \<Rightarrow> ('p \<Rightarrow> 's) \<Rightarrow> 'p list \<times> 'p list \<Rightarrow> 's" where
  "team_diff ops score teams =
    f_abs ops (f_sub ops (f_sum ops score (fst teams)) (f_sum ops score (snd teams)))"

definition sel_diff :: "'s float64 \<Rightarrow> ('p \<Rightarrow> 's) \<Rightarrow> bool list \<Rightarrow> 'p list \<Rightarrow> 's" where
  "sel_diff ops score sel ps = team_diff ops score (pick sel ps, pick (map Not sel) ps)"

text \<open>
  A structure for the examples: the integers and NaN, with the arithmetic that
  \<open>float64\<close> has on them as long as the integers stay below \<open>2 ^ 53\<close> in magnitude
  (sums and differences are exact there; every operation on NaN gives NaN, and every
  comparison with NaN is false).  \<open>math.MaxFloat64\<close> is the integer
  \<open>2 ^ 1024 - 2 ^ 971\<close>.
\<close>

datatype sample_float = Num int | NaN

definition sample_add :: "sample_float \<Rightarrow> sample_float \<Rightarrow> sample_float" where
  "sample_add a b = (case (a, b) of (Num x, Num y) \<Rightarrow> Num (x + y) | _ \<Rightarrow> NaN)"

definition sample_sub :: "sample_float \<Rightarrow> sample_float \<Rightarrow> sample_float" where
  "sample_sub a b = (case (a, b) of (Num x, Num y) \<Rightarrow> Num (x - y) | _ \<Rightarrow> NaN)"

definition sample_abs :: "sample_float \<Rightarrow> sample_float" where
  "sample_abs a = (case a of Num x \<Rightarrow> Num \<bar>x\<bar> | NaN \<Rightarrow> NaN)"

definition sample_lt :: "sample_float \<Rightarrow> sample_float \<Rightarrow> bool" where
  "sample_lt a b = (case (a, b) of (Num x, Num y) \<Rightarrow> x < y | _ \<Rightarrow> False)"

definition sample_le :: "sample_float \<Rightarrow> sample_float \<Rightarrow> bool" where
  "sample_le a b = (case (a, b) of (Num x, Num y) \<Rightarrow> x \<le> y | _ \<Rightarrow> False)"

definition sample_ops :: "sample_float float64" where
  "sample_ops =
    \<lparr>f_zero = Num 0, f_max = Num (2 ^ 1024 - 2 ^ 971), f_add = sample_add, f_sub = sample_sub,
     f_abs = sample_abs, f_lt = sample_lt, f_le = sample_le, f_gt = (\<lambda>a b. sample_lt b a)\<rparr>"

text \<open>A roster of 13 players with the skill scores 1, 2, ..., 13.\<close>

definition ascending_roster :: "PlayerData list" where
  "ascending_roster = map (\<lambda>k. player [] k) [1, 2, 3, 4, 5, 6, 7, 8, 9, 10, 11, 12, 13]"

text \<open>
  Rosters of players with equal skill scores: player \<open>k\<close> is named by \<open>k\<close>
  letters.
\<close>

definition tied :: "nat \<Rightarrow> PlayerData" where
  "tied k = player (replicate k CHR ''p'') 1000"

definition tied_roster :: "nat \<Rightarrow> PlayerData list" where
  "tied_roster n = map tied [1..<Suc n]"
section \<open>The lane-unique split for ten players\<close>

text \<open>
  The search keeps the smallest difference seen and the teams and roles that gave it.
  Players are the indices 0..9 into the roster sorted by descending skill score;
  \<open>playerLanes\<close> holds the main lanes of each, \<open>skills\<close> the skill scores.
\<close>

record lane_best =
  minDiff :: int
  bestA :: "nat list"
  bestB :: "nat list"
  bestAroles :: "string list"
  bestBroles :: "string list"

text \<open>
  The role assignment of team A: for the i-th member the first of the member's lanes that
  is not yet used in the team; the loop stops with \<open>okA = false\<close> at the first member
  without such a lane.
\<close>

fun assign_A ::
  "string list list \<Rightarrow> nat \<Rightarrow> nat list \<Rightarrow> string list \<Rightarrow> string list \<Rightarrow> bool \<times> string list" where
  "assign_A playerLanes i [] usedA rolesA = (True, rolesA)"
| "assign_A playerLanes i (idx # rest) usedA rolesA =
    (case find (\<lambda>lane. lane \<notin> set usedA) (playerLanes ! idx) of
       None \<Rightarrow> (False, rolesA)
     | Some lane \<Rightarrow> assign_A playerLanes (i + 1) rest (lane # usedA) (rolesA[i := lane]))"

text \<open>
  The role assignment of team B runs over \<open>arr\<close>, skipping the members of
  \<open>acc\<close>.
\<close>

fun assign_B ::
  "string list list \<Rightarrow> nat list \<Rightarrow> nat \<Rightarrow> nat list \<Rightarrow> string list \<Rightarrow> string list
     \<Rightarrow> bool \<times> string list" where
  "assign_B playerLanes acc bidx [] usedB rolesB = (True, rolesB)"
| "assign_B playerLanes acc bidx (idx # rest) usedB rolesB =
    (if idx \<in> set acc then assign_B playerLanes acc bidx rest usedB rolesB
     else case find (\<lambda>lane. lane \<notin> set usedB) (playerLanes ! idx) of
            None \<Rightarrow> (False, rolesB)
          | Some lane \<Rightarrow>
              assign_B playerLanes acc (bidx + 1) rest (lane # usedB) (rolesB[bidx := lane]))"

text \<open>
  The branch of \<open>comb\<close> taken when \<open>acc\<close> has five members.  The sums and the
  difference are Go \<open>int\<close>s.
\<close>

definition try_split ::
  "string list list \<Rightarrow> int list \<Rightarrow> nat list \<Rightarrow> nat list \<Rightarrow> lane_best \<Rightarrow> lane_best" where
  "try_split playerLanes skills arr acc st =
    (let (okA, rolesA) = assign_A playerLanes 0 acc [] (replicate 5 []);
         (okB, rolesB) = assign_B playerLanes acc 0 arr [] (replicate 5 [])
     in if okA \<and> okB then
          (let sumA = foldl (\<lambda>s idx. add64 s (skills ! idx)) 0 acc;
               sumB = foldl (\<lambda>s idx. add64 s (skills ! idx)) 0
                        (filter (\<lambda>idx. idx \<notin> set acc) arr);
               diff = (if sub64 sumA sumB < 0 then sub64 0 (sub64 sumA sumB) else sub64 sumA sumB)
           in if diff < minDiff st
              then \<lparr>minDiff = diff, bestA = acc, bestB = filter (\<lambda>idx. idx \<notin> set acc) arr,
                    bestAroles = rolesA, bestBroles = rolesB\<rparr>
              else st)
        else st)"

text \<open>
  \<open>comb arr n acc\<close>: with five members chosen the split is tried; else, unless \<open>n\<close>
  is 0 or \<open>arr\<close> is empty, the first element of \<open>arr\<close> is first taken, then left
  out, and the search goes on in the rest of \<open>arr\<close>.
\<close>

fun comb ::
  "string list list \<Rightarrow> int list \<Rightarrow> nat list \<Rightarrow> int \<Rightarrow> nat list \<Rightarrow> lane_best \<Rightarrow> lane_best" where
  "comb playerLanes skills [] n acc st =
    (if length acc = 5 then try_split playerLanes skills [] acc st else st)"
| "comb playerLanes skills (x # arr) n acc st =
    (if length acc = 5 then try_split playerLanes skills (x # arr) acc st
     else if n = 0 then st
     else comb playerLanes skills arr n acc
            (comb playerLanes skills arr (n - 1) (acc @ [x]) st))"

text \<open>
  The whole step: the search from the indices 0..9, and the result when both best teams
  have five members: the members of each team with their roles.  Otherwise the program
  reports that no combination without a repeated lane exists.
\<close>

definition laneUniqueSplit ::
  "string list list \<Rightarrow> int list \<Rightarrow> ((nat \<times> string) list \<times> (nat \<times> string) list) option" where
  "laneUniqueSplit playerLanes skills =
    (let st = comb playerLanes skills [0, 1, 2, 3, 4, 5, 6, 7, 8, 9] 5 []
                \<lparr>minDiff = 2 ^ 30, bestA = [], bestB = [], bestAroles = [], bestBroles = []\<rparr>
     in if length (bestA st) = 5 \<and> length (bestB st) = 5
        then Some (zip (bestA st) (bestAroles st), zip (bestB st) (bestBroles st))
        else None)"

text \<open>
  The assignment of the specification for one team: its members in roster order, each
  given the first lane of its list that the team has not used yet; no assignment when a
  member is left without a lane.
\<close>

fun spec_assign :: "string list list \<Rightarrow> nat list \<Rightarrow> string list \<Rightarrow> (nat \<times> string) list option" where
  "spec_assign playerLanes [] used = Some []"
| "spec_assign playerLanes (idx # rest) used =
    (case find (\<lambda>lane. lane \<notin> set used) (playerLanes ! idx) of
       None \<Rightarrow> None
     | Some lane \<Rightarrow>
         (case spec_assign playerLanes rest (lane # used) of
            None \<Rightarrow> None
          | Some roles \<Rightarrow> Some ((idx, lane) # roles)))"

text \<open>
  A roster of ten in which the players 0..4 and the players 5..9 each prefer the five lanes
  in turn, with the skill scores 10, 9, ..., 1.
\<close>

definition sample_lanes :: "string list list" where
  "sample_lanes =
    [[''TOP''], [''JUNGLE''], [''MIDDLE''], [''BOTTOM''], [''UTILITY''],
     [''TOP''], [''JUNGLE''], [''MIDDLE''], [''BOTTOM''], [''UTILITY'']]"

definition sample_skills :: "int list" where
  "sample_skills = [10, 9, 8, 7, 6, 5, 4, 3, 2, 1]"

section \<open>The rate limiter\<close>

text \<open>
  Times are readings of Go's monotonic clock in nanoseconds.  The limiter holds the
  timestamps recorded in the last second and in the last 120 seconds, oldest first.
\<close>

definition Millisecond :: int where
  "Millisecond = 1000000"

record RiotLimiter =
  secWin :: "int list"
  twoMin :: "int list"

definition NewRiotLimiter :: RiotLimiter where
  "NewRiotLimiter = \<lparr>secWin = [], twoMin = []\<rparr>"

text \<open>Pruning both windows at the time \<open>now\<close>: entries before the cutoff leave the front.\<close>

definition prune :: "int \<Rightarrow> RiotLimiter \<Rightarrow> RiotLimiter" where
  "prune now r =
    \<lparr>secWin = dropWhile (\<lambda>t. t < now - 1 * Second) (secWin r),
     twoMin = dropWhile (\<lambda>t. t < now - 120 * Second) (twoMin r)\<rparr>"

text \<open>The sleep computed when the request is not permitted, on the pruned windows.\<close>

definition sleep_needed :: "int \<Rightarrow> RiotLimiter \<Rightarrow> int" where
  "sleep_needed now r =
    (let wait1 = (if length (secWin r) \<ge> 20 \<and> hd (secWin r) + 1 * Second - now > 0
                  then hd (secWin r) + 1 * Second - now else 0);
         wait2 = (if length (twoMin r) \<ge> 100 \<and> hd (twoMin r) + 120 * Second - now > 0
                  then hd (twoMin r) + 120 * Second - now else 0);
         sleepFor = (if wait2 > wait1 then wait2 else wait1)
     in if sleepFor < 10 * Millisecond then 10 * Millisecond else sleepFor)"

text \<open>
  The loop of \<open>Wait\<close>, from the clock reading \<open>now\<close> of its first pass.
  \<open>time.Sleep\<close> returns after at least the duration asked for; by how much later the
  next reading of the clock is, is given by \<open>lags\<close>, one entry for each sleep (none
  when the list is used up).  The result is the limiter, the timestamp recorded, the total
  slept and the lags left over.
\<close>

function Wait_loop ::
  "RiotLimiter \<Rightarrow> int \<Rightarrow> nat list \<Rightarrow> int \<Rightarrow> RiotLimiter \<times> int \<times> int \<times> nat list" where
  "Wait_loop r now lags slept =
    (let r1 = prune now r
     in if length (secWin r1) < 20 \<and> length (twoMin r1) < 100
        then (\<lparr>secWin = secWin r1 @ [now], twoMin = twoMin r1 @ [now]\<rparr>, now, slept, lags)
        else Wait_loop r1
               (now + sleep_needed now r1 + (case lags of [] \<Rightarrow> 0 | lag # rest \<Rightarrow> int lag))
               (tl lags) (slept + sleep_needed now r1))"
  by pat_completeness auto

text \<open>
  The loop ends: every pass that does not record moves the clock forward by at least 10
  milliseconds, and once the clock is more than 120 seconds past every entry both
  windows are pruned empty.
\<close>

definition horizon :: "RiotLimiter \<Rightarrow> int" where
  "horizon r = Max (insert 0 (set (secWin r) \<union> set (twoMin r))) + 120 * Second + 1"

termination Wait_loop
proof (relation "measure (\<lambda>(r, now, lags, slept). nat (horizon r - now))")
  show "wf (measure (\<lambda>(r, now, lags, slept). nat (horizon r - now)))" by simp
next
  fix r :: RiotLimiter and now :: int and lags :: "nat list" and slept :: int and r1
  assume r1: "r1 = prune now r"
    and busy: "\<not> (length (secWin r1) < 20 \<and> length (twoMin r1) < 100)"
  let ?now' = "now + sleep_needed now r1 + (case lags of [] \<Rightarrow> 0 | lag # rest \<Rightarrow> int lag)"
  let ?E = "insert 0 (set (secWin r) \<union> set (twoMin r))"
  have sub: "set (secWin r1) \<subseteq> set (secWin r)" "set (twoMin r1) \<subseteq> set (twoMin r)"
    unfolding r1 by (auto simp: prune_def dest: set_dropWhileD)
  have "now < horizon r"
  proof (rule ccontr)
    assume "\<not> now < horizon r"
    then have late: "Max ?E + 120 * Second + 1 \<le> now" by (simp add: horizon_def)
    have old: "t < now - 120 * Second \<and> t < now - 1 * Second" if "t \<in> ?E" for t
    proof -
      have "t \<le> Max ?E" using that by (intro Max_ge) simp_all
      then show ?thesis using late by (simp add: Second_def)
    qed
    have "\<forall>t \<in> set (secWin r). t < now - 1 * Second" using old by simp
    then have "secWin r1 = []" unfolding r1 by (simp add: prune_def dropWhile_eq_Nil_conv)
    moreover have "\<forall>t \<in> set (twoMin r). t < now - 120 * Second" using old by simp
    then have "twoMin r1 = []" unfolding r1 by (simp add: prune_def dropWhile_eq_Nil_conv)
    ultimately show False using busy by simp
  qed
  moreover have "10 * Millisecond \<le> sleep_needed now r1"
    by (simp add: sleep_needed_def Let_def)
  then have "now < ?now'"
    by (simp add: Millisecond_def split: list.splits)
  moreover have "horizon r1 \<le> horizon r"
  proof -
    have "insert 0 (set (secWin r1) \<union> set (twoMin r1)) \<subseteq> ?E" using sub by auto
    then have "Max (insert 0 (set (secWin r1) \<union> set (twoMin r1))) \<le> Max ?E"
      by (intro Max_mono) simp_all
    then show ?thesis by (simp add: horizon_def)
  qed
  ultimately show "((r1, ?now', tl lags, slept + sleep_needed now r1), (r, now, lags, slept))
      \<in> measure (\<lambda>(r, now, lags, slept). nat (horizon r - now))"
    by simp
qed

declare Wait_loop.simps [simp del]

definition Wait :: "RiotLimiter \<Rightarrow> int \<Rightarrow> nat list \<Rightarrow> RiotLimiter \<times> int \<times> int" where
  "Wait r now lags =
    (case Wait_loop r now lags 0 of (r', recorded, slept, rest) \<Rightarrow> (r', recorded, slept))"

text \<open>
  A sequence of calls of \<open>Wait\<close> on one limiter.  Each call is given by the time that
  passes before it, from the previous call's return, and by the lags of its sleeps.  The
  state is the limiter, the clock and the timestamps recorded so far.
\<close>

fun run_calls ::
  "(nat \<times> nat list) list \<Rightarrow> RiotLimiter \<times> int \<times> int list \<Rightarrow> RiotLimiter \<times> int \<times> int list" where
  "run_calls [] st = st"
| "run_calls ((gap, lags) # calls) (r, clock, recorded) =
    (case Wait r (clock + int gap) lags of
       (r', stamp, slept) \<Rightarrow> run_calls calls (r', stamp, recorded @ [stamp]))"

text \<open>The timestamps that fall into the window of a given length starting at \<open>a\<close>, ends included.\<close>

definition in_window :: "int \<Rightarrow> int \<Rightarrow> int list \<Rightarrow> int list" where
  "in_window a len stamps = filter (\<lambda>t. a \<le> t \<and> t \<le> a + len) stamps"

text \<open>
  What holds of one window of the limiter between passes of the loop: it is what is
  left of the recorded timestamps after dropping some of the oldest, every dropped
  timestamp is more than the window's length before the clock, and no window of that
  length holds more recorded timestamps than the cap.
\<close>

definition win_inv :: "int \<Rightarrow> nat \<Rightarrow> int list \<Rightarrow> int \<Rightarrow> int list \<Rightarrow> bool" where
  "win_inv len cap w clock recorded =
    ((\<exists>k. w = drop k recorded \<and> (\<forall>t \<in> set (take k recorded). t < clock - len))
     \<and> (\<forall>a. length (in_window a len recorded) \<le> cap))"

definition limiter_inv :: "RiotLimiter \<Rightarrow> int \<Rightarrow> int list \<Rightarrow> bool" where
  "limiter_inv r clock recorded =
    (win_inv (1 * Second) 20 (secWin r) clock recorded
     \<and> win_inv (120 * Second) 100 (twoMin r) clock recorded)"

section \<open>Properties of the rank score\<close>

lemma wrap64_id:
  assumes "- (2 ^ 63) \<le> x" "x < 2 ^ 63"
  shows "wrap64 x = x"
  using assms by (simp add: wrap64_def)

lemma wrap64_range: "- (2 ^ 63) \<le> wrap64 x \<and> wrap64 x < 2 ^ 63"
proof -
  have "0 \<le> (x + 2 ^ 63) mod 2 ^ 64" "(x + 2 ^ 63) mod 2 ^ 64 < 2 ^ 64"
    by simp_all
  then show ?thesis unfolding wrap64_def by simp
qed

lemma wrap64_add_left: "wrap64 (wrap64 a + b) = wrap64 (a + b)"
proof -
  define m :: int where "m = 2 ^ 64"
  define h :: int where "h = 2 ^ 63"
  have "(((a + h) mod m - h) + b + h) mod m = ((a + h) mod m + b) mod m"
    by (simp add: algebra_simps)
  also have "\<dots> = (a + h + b) mod m"
    by (rule mod_add_left_eq)
  also have "\<dots> = (a + b + h) mod m"
    by (simp add: algebra_simps)
  finally show ?thesis by (simp add: wrap64_def m_def h_def)
qed

lemma lookup_tier_range: "0 \<le> lookup_int tierToInt tier \<and> lookup_int tierToInt tier \<le> 10"
  by (simp add: lookup_int_def tierToInt_def)

lemma lookup_rank_range: "0 \<le> lookup_int rankToInt rank \<and> lookup_int rankToInt rank \<le> 4"
  by (simp add: lookup_int_def rankToInt_def)

lemma rankScore_exact:
  assumes "- (2 ^ 62) \<le> lp" "lp \<le> 2 ^ 62"
  shows "rankScore tier rank lp
           = ((lookup_int tierToInt tier - 1) * 4 + (lookup_int rankToInt rank - 1)) * 100 + lp"
proof -
  define t where "t = lookup_int tierToInt tier"
  define r where "r = lookup_int rankToInt rank"
  have t: "0 \<le> t" "t \<le> 10" using lookup_tier_range [of tier] by (simp_all add: t_def)
  have r: "0 \<le> r" "r \<le> 4" using lookup_rank_range [of rank] by (simp_all add: r_def)
  have a: "sub64 t 1 = t - 1"
    unfolding sub64_def using t by (intro wrap64_id) simp_all
  have b: "mul64 (t - 1) 4 = (t - 1) * 4"
    unfolding mul64_def using t by (intro wrap64_id) simp_all
  have c: "sub64 r 1 = r - 1"
    unfolding sub64_def using r by (intro wrap64_id) simp_all
  have d: "add64 ((t - 1) * 4) (r - 1) = (t - 1) * 4 + (r - 1)"
    unfolding add64_def using t r by (intro wrap64_id) simp_all
  have e: "mul64 ((t - 1) * 4 + (r - 1)) 100 = ((t - 1) * 4 + (r - 1)) * 100"
    unfolding mul64_def using t r by (intro wrap64_id) simp_all
  have f: "add64 (((t - 1) * 4 + (r - 1)) * 100) lp = ((t - 1) * 4 + (r - 1)) * 100 + lp"
    unfolding add64_def using t r assms by (intro wrap64_id) simp_all
  show ?thesis
    unfolding rankScore_def Let_def t_def [symmetric] r_def [symmetric] a b c d e f ..
qed

lemma sdiv_nonneg:
  fixes a b :: int
  assumes "0 \<le> a" "0 < b"
  shows "a sdiv b = a div b"
  using assms by (cases "a = 0") (simp_all add: signed_divide_int_def sgn_if)

lemma smod_nonneg:
  fixes a b :: int
  assumes "0 \<le> a" "0 < b"
  shows "a smod b = a mod b"
  using assms by (simp add: smod_mod_positive)

lemma score_digits:
  fixes t r lp :: int
  assumes "0 \<le> t" "0 \<le> r" "r < 4" "0 \<le> lp" "lp < 100"
  shows "((t * 4 + r) * 100 + lp) sdiv 400 = t"
    and "(((t * 4 + r) * 100 + lp) smod 400) sdiv 100 = r"
    and "((t * 4 + r) * 100 + lp) smod 100 = lp"
proof -
  define x where "x = r * 100 + lp"
  define s where "s = (t * 4 + r) * 100 + lp"
  have nn: "0 \<le> s" using assms by (simp add: s_def)
  have s400: "s = x + t * 400" by (simp add: s_def x_def algebra_simps)
  have low: "0 \<le> x" "x < 400" using assms by (auto simp: x_def)
  have d: "s div 400 = t" unfolding s400 using low by simp
  have m: "s mod 400 = x" unfolding s400 using low by simp
  have "s sdiv 400 = t"
    using nn d by (simp add: sdiv_nonneg)
  then show "((t * 4 + r) * 100 + lp) sdiv 400 = t" by (simp add: s_def)
  have m': "s smod 400 = x"
    using nn m by (simp add: smod_nonneg)
  have "x div 100 = r" using assms by (simp add: x_def)
  then have "(s smod 400) sdiv 100 = r"
    using low unfolding m' by (simp add: sdiv_nonneg)
  then show "(((t * 4 + r) * 100 + lp) smod 400) sdiv 100 = r" by (simp add: s_def)
  have "s = lp + (t * 4 + r) * 100" by (simp add: s_def)
  then have "s mod 100 = lp mod 100" by (simp only: mod_mult_self1)
  then have "s mod 100 = lp" using assms by simp
  then have "s smod 100 = lp"
    using nn by (simp add: smod_nonneg)
  then show "((t * 4 + r) * 100 + lp) smod 100 = lp" by (simp add: s_def)
qed

lemma tier_roundtrip:
  assumes "tier \<in> set tiers"
  shows "1 \<le> lookup_int tierToInt tier \<and>
         lookup_str intToTier (lookup_int tierToInt tier - 1 + 1) = tier"
  using assms by (auto simp: tiers_def tierToInt_def intToTier_def lookup_int_def lookup_str_def)

lemma division_roundtrip:
  assumes "rank \<in> set divisions"
  shows "1 \<le> lookup_int rankToInt rank \<and> lookup_int rankToInt rank \<le> 4 \<and>
         lookup_str intToRank (lookup_int rankToInt rank - 1 + 1) = rank"
  using assms by (auto simp: divisions_def rankToInt_def intToRank_def lookup_int_def lookup_str_def)

text \<open>
  C2.  For every tier among the ten tiers IRON..CHALLENGER, every division among
  I, II, III, IV and every league-point value from 0 to 99, \<open>scoreToRank\<close> applied to
  \<open>rankScore\<close> returns exactly the tier, division and league points it started from;
  in particular GOLD II 50 has score 1450 and 1450 maps back to GOLD II 50.
\<close>

theorem scoreToRank_rankScore:
  "(tier \<in> set tiers \<and> rank \<in> set divisions \<and> 0 \<le> lp \<and> lp \<le> 99
      \<longrightarrow> scoreToRank (rankScore tier rank lp) = (tier, rank, lp))
   \<and> tiers = [''IRON'', ''BRONZE'', ''SILVER'', ''GOLD'', ''PLATINUM'', ''EMERALD'',
               ''DIAMOND'', ''MASTER'', ''GRANDMASTER'', ''CHALLENGER'']
   \<and> divisions = [''IV'', ''III'', ''II'', ''I'']
   \<and> rankScore ''GOLD'' ''II'' 50 = 1450
   \<and> scoreToRank 1450 = (''GOLD'', ''II'', 50)"
proof (intro conjI impI)
  assume a: "tier \<in> set tiers \<and> rank \<in> set divisions \<and> 0 \<le> lp \<and> lp \<le> 99"
  define t where "t = lookup_int tierToInt tier - 1"
  define r where "r = lookup_int rankToInt rank - 1"
  have t: "0 \<le> t" "lookup_str intToTier (t + 1) = tier"
    using tier_roundtrip [of tier] a by (simp_all add: t_def)
  have r: "0 \<le> r" "r < 4" "lookup_str intToRank (r + 1) = rank"
    using division_roundtrip [of rank] a by (simp_all add: r_def)
  have lp: "0 \<le> lp" "lp < 100" using a by simp_all
  have s: "rankScore tier rank lp = (t * 4 + r) * 100 + lp"
    using rankScore_exact [of lp tier rank] lp by (simp add: t_def r_def)
  show "scoreToRank (rankScore tier rank lp) = (tier, rank, lp)"
    unfolding s scoreToRank_def Let_def
    using score_digits [OF t(1) r(1) r(2) lp] t(2) r(3) by simp
next
  show "tiers = [''IRON'', ''BRONZE'', ''SILVER'', ''GOLD'', ''PLATINUM'', ''EMERALD'',
               ''DIAMOND'', ''MASTER'', ''GRANDMASTER'', ''CHALLENGER'']"
    by (simp add: tiers_def tierToInt_def)
next
  show "divisions = [''IV'', ''III'', ''II'', ''I'']"
    by (simp add: divisions_def rankToInt_def)
next
  show "rankScore ''GOLD'' ''II'' 50 = 1450"
    by code_simp
next
  show "scoreToRank 1450 = (''GOLD'', ''II'', 50)"
    by (simp add: scoreToRank_def intToTier_def intToRank_def lookup_str_def)
qed

theorem scoreToRank_rankScore_witness:
  "''DIAMOND'' \<in> set tiers \<and> ''IV'' \<in> set divisions \<and> (0::int) \<le> 99 \<and> (99::int) \<le> 99
   \<and> scoreToRank (rankScore ''DIAMOND'' ''IV'' 99) = (''DIAMOND'', ''IV'', 99)
   \<and> rankScore ''DIAMOND'' ''IV'' 99 = 2499"
proof -
  have h: "''DIAMOND'' \<in> set tiers \<and> ''IV'' \<in> set divisions \<and> (0::int) \<le> 99 \<and> (99::int) \<le> 99"
    by (simp add: tiers_def divisions_def tierToInt_def rankToInt_def)
  have v: "rankScore ''DIAMOND'' ''IV'' 99 = 2499"
    by code_simp
  from scoreToRank_rankScore [of "''DIAMOND''" "''IV''" 99] h v show ?thesis
    by simp
qed

section \<open>Properties of the executor\<close>

lemma attempt_step_5xx:
  assumes "is_5xx a"
  shows "attempt_step skip m st a =
           backoff_or_stop skip m
             (st\<lparr>counters := RecordAttempt (AddRateWait (limiter_slept a) (counters st)),
                 tries := tries st + 1, lastStatus := status_of a\<rparr>)"
  using assms
  by (auto simp: is_5xx_def status_of_def attempt_step_def Let_def split: option.splits)

lemma attempt_step_429:
  assumes "is_429 a"
  shows "fst (attempt_step skip m st a) = (if skip then Return None None else Continue)"
    and "sleeps (snd (attempt_step skip m st a)) =
           (if skip then sleeps st else sleeps st @ [RateLimitSleep (retryAfterWait (header_of a))])"
    and "tries (snd (attempt_step skip m st a)) = tries st + 1"
    and "backoff (snd (attempt_step skip m st a)) = backoff st"
    and "lastStatus (snd (attempt_step skip m st a)) = 429"
  using assms
  by (auto simp: is_429_def header_of_def attempt_step_def Let_def split: option.splits)

lemma attempt_step_transport:
  assumes "got a = None"
  shows "attempt_step skip m st a =
           backoff_or_stop skip m
             (st\<lparr>counters := RecordAttempt (AddRateWait (limiter_slept a) (counters st)),
                 tries := tries st + 1\<rparr>)"
  using assms by (simp add: attempt_step_def Let_def)

lemma three_5xx:
  assumes "is_5xx a1" "is_5xx a2" "is_5xx a3"
  shows "fst (doRequestWithRetry False cnt 3 (a1 # a2 # a3 # rest)) = Done None (Some (status_of a3))"
    and "tries (snd (doRequestWithRetry False cnt 3 (a1 # a2 # a3 # rest))) = 3"
    and "sleeps (snd (doRequestWithRetry False cnt 3 (a1 # a2 # a3 # rest))) = [BackoffSleep Second, BackoffSleep (2 * Second)]"
    and "attempts (counters (snd (doRequestWithRetry False cnt 3 (a1 # a2 # a3 # rest)))) = attempts cnt + 3"
  using assms
  by (simp_all add: doRequestWithRetry_def attempt_step_5xx backoff_or_stop_def Second_def RecordAttempt_def AddRateWait_def)

lemma fewer_5xx:
  assumes "\<forall>a \<in> set script. is_5xx a" "length script < 3"
  shows "fst (doRequestWithRetry False cnt 3 script) = Pending"
proof -
  consider "script = []" | a where "script = [a]" | a b where "script = [a, b]"
    using assms(2) by (cases script; cases "tl script"; cases "tl (tl script)") auto
  then show ?thesis
    using assms(1)
    by cases (simp_all add: doRequestWithRetry_def attempt_step_5xx backoff_or_stop_def Second_def)
qed


lemma backoff_sleeps_append [simp]:
  "backoff_sleeps (xs @ ys) = backoff_sleeps xs @ backoff_sleeps ys"
  by (simp add: backoff_sleeps_def)

lemma backoff_sleeps_single [simp]:
  "backoff_sleeps [BackoffSleep d] = [d]" "backoff_sleeps [RateLimitSleep d] = []" "backoff_sleeps [] = []"
  by (simp_all add: backoff_sleeps_def)


lemma backoff_inv_cong:
  assumes "backoff_inv st" "backoff st' = backoff st" "backoff_sleeps (sleeps st') = backoff_sleeps (sleeps st)"
  shows "backoff_inv st'"
  using assms by (simp add: backoff_inv_def)



lemma nth_backoff_le: "nth_backoff k \<le> 32 * Second"
  by (simp add: nth_backoff_def Second_def)

lemma Atoi_Nil: "Atoi [] = None"
  by (simp add: Atoi_def)

lemma trim_white_space:
  "list_all (\<lambda>w. TrimSpace (w @ ''5'' @ w) = ''5'') white_space"
  "list_all (\<lambda>w. TrimSpace (w @ ''5'' @ w) = w @ ''5'' @ w) not_white_space"
  "length white_space = 25"
  by code_simp+

lemma retryAfterWait_hint:
  assumes "Atoi (TrimSpace h) = Some v" "1 \<le> v" "v \<le> 9223372036"
  shows "retryAfterWait h = v * Second"
proof -
  have ne: "TrimSpace h \<noteq> []" using assms(1) Atoi_Nil by auto
  have "wrap64 (v * Second) = v * Second"
    using assms(2,3) by (intro wrap64_id) (simp_all add: Second_def)
  moreover have "v * Second \<noteq> 0" using assms(2) by (simp add: Second_def)
  ultimately show ?thesis
    using ne assms(1) by (simp add: retryAfterWait_def Let_def)
qed

lemma retryAfterWait_fallback:
  assumes "TrimSpace h = [] \<or> Atoi (TrimSpace h) = None \<or> Atoi (TrimSpace h) = Some 0"
  shows "retryAfterWait h = 2 * Second"
  using assms by (auto simp: retryAfterWait_def Let_def wrap64_def)

lemma retry_loop_429s:
  assumes "\<forall>a \<in> set as. is_429 a"
  shows "\<exists>st'. retry_loop False m st (as @ rest) = retry_loop False m st' rest
            \<and> sleeps st' = sleeps st @ map (\<lambda>a. RateLimitSleep (retryAfterWait (header_of a))) as
            \<and> tries st' = tries st + int (length as)
            \<and> backoff st' = backoff st"
  using assms
proof (induction as arbitrary: st)
  case Nil
  have "retry_loop False m st ([] @ rest) = retry_loop False m st rest" by simp
  then show ?case by (intro exI [of _ st]) simp
next
  case (Cons a as)
  have a: "is_429 a" using Cons.prems by simp
  obtain st1 where step: "attempt_step False m st a = (Continue, st1)"
    using attempt_step_429(1) [OF a, of False m st] by (cases "attempt_step False m st a") simp
  have st1: "sleeps st1 = sleeps st @ [RateLimitSleep (retryAfterWait (header_of a))]"
    "tries st1 = tries st + 1" "backoff st1 = backoff st"
    using attempt_step_429(2,3,4) [OF a, of False m st] step by simp_all
  obtain st' where st': "retry_loop False m st1 (as @ rest) = retry_loop False m st' rest"
    "sleeps st' = sleeps st1 @ map (\<lambda>a. RateLimitSleep (retryAfterWait (header_of a))) as"
    "tries st' = tries st1 + int (length as)" "backoff st' = backoff st1"
    using Cons.IH [of st1] Cons.prems by auto
  have "retry_loop False m st ((a # as) @ rest) = retry_loop False m st' rest"
    using step st'(1) by simp
  moreover have "sleeps st' = sleeps st @ map (\<lambda>a. RateLimitSleep (retryAfterWait (header_of a))) (a # as)"
    using st'(2) st1(1) by simp
  moreover have "tries st' = tries st + int (length (a # as))"
    using st'(3) st1(2) by simp
  moreover have "backoff st' = backoff st"
    using st'(4) st1(3) by simp
  ultimately show ?case by blast
qed

lemma attempt_step_ok:
  assumes "is_ok a"
  shows "fst (attempt_step skip m st a) = Return (got a) None"
    and "sleeps (snd (attempt_step skip m st a)) = sleeps st"
    and "tries (snd (attempt_step skip m st a)) = tries st + 1"
  using assms by (auto simp: is_ok_def attempt_step_def Let_def split: option.splits)

lemma unbounded_429:
  assumes "\<forall>a \<in> set as. is_429 a" "is_ok ok"
  shows "fst (doRequestWithRetry False cnt m (as @ ok # rest)) = Done (got ok) None"
    and "sleeps (snd (doRequestWithRetry False cnt m (as @ ok # rest)))
           = map (\<lambda>a. RateLimitSleep (retryAfterWait (header_of a))) as"
    and "tries (snd (doRequestWithRetry False cnt m (as @ ok # rest))) = int (length as) + 1"
proof -
  let ?st0 = "\<lparr>tries = 0, backoff = 1 * Second, lastStatus = 0, sleeps = [], counters = cnt\<rparr>"
  obtain st' where st': "retry_loop False m ?st0 (as @ ok # rest) = retry_loop False m st' (ok # rest)"
    "sleeps st' = sleeps ?st0 @ map (\<lambda>a. RateLimitSleep (retryAfterWait (header_of a))) as"
    "tries st' = tries ?st0 + int (length as)"
    using retry_loop_429s [OF assms(1), of m ?st0 "ok # rest"] by blast
  obtain st'' where s: "attempt_step False m st' ok = (Return (got ok) None, st'')"
    using attempt_step_ok(1) [OF assms(2), of False m st'] by (cases "attempt_step False m st' ok") simp
  have st'': "sleeps st'' = sleeps st'" "tries st'' = tries st' + 1"
    using attempt_step_ok(2,3) [OF assms(2), of False m st'] s by simp_all
  have r: "doRequestWithRetry False cnt m (as @ ok # rest) = (Done (got ok) None, st'')"
    unfolding doRequestWithRetry_def st'(1) using s by simp
  show "fst (doRequestWithRetry False cnt m (as @ ok # rest)) = Done (got ok) None"
    by (simp add: r)
  show "sleeps (snd (doRequestWithRetry False cnt m (as @ ok # rest)))
           = map (\<lambda>a. RateLimitSleep (retryAfterWait (header_of a))) as"
    using st'(2) st''(1) by (simp add: r)
  show "tries (snd (doRequestWithRetry False cnt m (as @ ok # rest))) = int (length as) + 1"
    using st'(3) st''(2) by (simp add: r)
qed

lemma skip_gives_up:
  assumes "is_429 a \<or> is_5xx a \<or> got a = None"
  shows "fst (doRequestWithRetry True cnt m (a # rest)) = Done None None"
    and "sleeps (snd (doRequestWithRetry True cnt m (a # rest))) = []"
    and "tries (snd (doRequestWithRetry True cnt m (a # rest))) = 1"
  using assms
  by (auto simp: doRequestWithRetry_def attempt_step_def Let_def backoff_or_stop_def is_429_def is_5xx_def
           split: option.splits)

lemmas exec_eval = doRequestWithRetry_def attempt_step_def backoff_or_stop_def
  respond_def transport_failure_def NewCounters_def RecordAttempt_def AddRateWait_def Add429Wait_def
  RecordCompleted_def RecordRetry_def retryAfterWait_def Atoi_def TrimSpace_def is_space_def
  space2_def space3_def
  wrap64_def Second_def Let_def

text \<open>
  C6 (amended).  With best-effort mode off and an attempt bound of 3, when the first three
  attempts each yield a 5xx response, \<open>doRequestWithRetry\<close> makes exactly three
  attempts, sleeping 1 and 2 seconds between them, and then fails with an error carrying
  the status of the third response; with fewer than three such responses observed it has
  not returned.  (As stated, without the condition on best-effort mode, the claim fails:
  see the counterexample below.)
\<close>

theorem bounded_retry_on_server_errors:
  "(\<not> skipOnLimit \<and> 3 \<le> length script \<and> list_all is_5xx (take 3 script)
      \<longrightarrow> fst (doRequestWithRetry skipOnLimit cnt 3 script) = Done None (Some (status_of (script ! 2)))
        \<and> tries (snd (doRequestWithRetry skipOnLimit cnt 3 script)) = 3
        \<and> attempts (counters (snd (doRequestWithRetry skipOnLimit cnt 3 script))) = attempts cnt + 3
        \<and> sleeps (snd (doRequestWithRetry skipOnLimit cnt 3 script))
            = [BackoffSleep Second, BackoffSleep (2 * Second)])
   \<and> (\<not> skipOnLimit \<and> length script < 3 \<and> list_all is_5xx script
      \<longrightarrow> fst (doRequestWithRetry skipOnLimit cnt 3 script) = Pending)"
proof (intro conjI impI)
  assume h: "\<not> skipOnLimit \<and> 3 \<le> length script \<and> list_all is_5xx (take 3 script)"
  then obtain a1 a2 a3 rest where s: "script = a1 # a2 # a3 # rest"
    by (cases script; cases "tl script"; cases "tl (tl script)") auto
  have a: "is_5xx a1" "is_5xx a2" "is_5xx a3" using h by (simp_all add: s)
  have sk: "skipOnLimit = False" using h by simp
  show "fst (doRequestWithRetry skipOnLimit cnt 3 script) = Done None (Some (status_of (script ! 2)))"
    unfolding sk s using three_5xx(1) [OF a] by simp
  show "tries (snd (doRequestWithRetry skipOnLimit cnt 3 script)) = 3"
    unfolding sk s using three_5xx(2) [OF a] by simp
  show "attempts (counters (snd (doRequestWithRetry skipOnLimit cnt 3 script))) = attempts cnt + 3"
    unfolding sk s using three_5xx(4) [OF a] by simp
  show "sleeps (snd (doRequestWithRetry skipOnLimit cnt 3 script))
            = [BackoffSleep Second, BackoffSleep (2 * Second)]"
    unfolding sk s using three_5xx(3) [OF a] by simp
next
  assume h: "\<not> skipOnLimit \<and> length script < 3 \<and> list_all is_5xx script"
  then show "fst (doRequestWithRetry skipOnLimit cnt 3 script) = Pending"
    using fewer_5xx [of script cnt] by (simp add: list_all_iff)
qed

text \<open>Four responses with status 500, and two with status 503.\<close>

theorem bounded_retry_on_server_errors_witness:
  "\<not> False \<and> 3 \<le> length (replicate 4 (respond 500 [])) \<and>
   list_all is_5xx (take 3 (replicate 4 (respond 500 []))) \<and>
   fst (doRequestWithRetry False NewCounters 3 (replicate 4 (respond 500 []))) = Done None (Some 500) \<and>
   tries (snd (doRequestWithRetry False NewCounters 3 (replicate 4 (respond 500 [])))) = 3 \<and>
   length (replicate 2 (respond 503 [])) < 3 \<and>
   list_all is_5xx (replicate 2 (respond 503 [])) \<and>
   fst (doRequestWithRetry False NewCounters 3 (replicate 2 (respond 503 []))) = Pending"
proof -
  have h1: "\<not> False \<and> 3 \<le> length (replicate 4 (respond 500 [])) \<and>
      list_all is_5xx (take 3 (replicate 4 (respond 500 [])))"
    by (simp add: is_5xx_def respond_def list_all_iff)
  have h2: "\<not> False \<and> length (replicate 2 (respond 503 [])) < 3 \<and>
      list_all is_5xx (replicate 2 (respond 503 []))"
    by (simp add: is_5xx_def respond_def list_all_iff)
  have v: "status_of (replicate 4 (respond 500 []) ! 2) = 500"
    by (simp add: status_of_def respond_def numeral_nat)
  from bounded_retry_on_server_errors [of False "replicate 4 (respond 500 [])" NewCounters] h1 v
  have c1: "fst (doRequestWithRetry False NewCounters 3 (replicate 4 (respond 500 []))) = Done None (Some 500)"
    "tries (snd (doRequestWithRetry False NewCounters 3 (replicate 4 (respond 500 [])))) = 3"
    by simp_all
  from bounded_retry_on_server_errors [of False "replicate 2 (respond 503 [])" NewCounters] h2
  have c2: "fst (doRequestWithRetry False NewCounters 3 (replicate 2 (respond 503 []))) = Pending"
    by simp
  from h1 h2 c1 c2 show ?thesis by simp
qed

text \<open>
  In best-effort mode (SKIP=true) the same three 500 responses end the call after one
  attempt with a nil response and a nil error.
\<close>

theorem best_effort_server_error_counterexample:
  "fst (doRequestWithRetry True NewCounters 3 [respond 500 [], respond 500 [], respond 500 []]) = Done None None
   \<and> tries (snd (doRequestWithRetry True NewCounters 3 [respond 500 [], respond 500 [], respond 500 []])) = 1"
  by (simp add: exec_eval)

text \<open>
  C7 (amended).  A 429 response is always retried when best-effort mode is off, whatever
  the attempt bound and the number of attempts made, after a sleep of the duration chosen
  from the Retry-After header; in best-effort mode the call returns nil, nil at once
  without sleeping.  The duration is the header's value in seconds when the header, with
  its leading and trailing Unicode white space removed, parses as an integer from 1 to
  9223372036, and 2 seconds when the header is absent, does not parse as an integer, or
  is zero.  Any number of 429 responses followed by a
  200 response returns that response.  For the responses 429 with Retry-After 1, 429
  without the header, 200, the call returns the 200 response with a nil error after
  sleeping 1 second and then 2 seconds.  The white space removed from the header is each
  of the 25 characters of \<open>white_space\<close>, in its UTF-8 encoding, and none of the
  byte sequences of \<open>not_white_space\<close>.
\<close>

theorem rate_limited_always_retried:
  "(is_429 a \<longrightarrow>
      fst (attempt_step False maxRetry st a) = Continue
    \<and> sleeps (snd (attempt_step False maxRetry st a))
        = sleeps st @ [RateLimitSleep (retryAfterWait (header_of a))]
    \<and> fst (attempt_step True maxRetry st a) = Return None None
    \<and> sleeps (snd (attempt_step True maxRetry st a)) = sleeps st)
   \<and> (Atoi (TrimSpace h) = Some v \<and> 1 \<le> v \<and> v \<le> 9223372036 \<longrightarrow> retryAfterWait h = v * Second)
   \<and> (TrimSpace h = [] \<or> Atoi (TrimSpace h) = None \<or> Atoi (TrimSpace h) = Some 0
        \<longrightarrow> retryAfterWait h = 2 * Second)
   \<and> (list_all is_429 as \<and> is_ok ok \<longrightarrow>
        fst (doRequestWithRetry False cnt maxRetry (as @ ok # rest)) = Done (got ok) None
      \<and> tries (snd (doRequestWithRetry False cnt maxRetry (as @ ok # rest))) = int (length as) + 1
      \<and> sleeps (snd (doRequestWithRetry False cnt maxRetry (as @ ok # rest)))
          = map (\<lambda>b. RateLimitSleep (retryAfterWait (header_of b))) as)
   \<and> fst (doRequestWithRetry False NewCounters 3 [respond 429 ''1'', respond 429 [], respond 200 []])
        = Done (Some \<lparr>StatusCode = 200, RetryAfter = []\<rparr>) None
   \<and> sleeps (snd (doRequestWithRetry False NewCounters 3 [respond 429 ''1'', respond 429 [], respond 200 []]))
        = [RateLimitSleep (1 * Second), RateLimitSleep (2 * Second)]
   \<and> list_all (\<lambda>w. TrimSpace (w @ ''5'' @ w) = ''5'') white_space
   \<and> list_all (\<lambda>w. TrimSpace (w @ ''5'' @ w) = w @ ''5'' @ w) not_white_space"
proof (intro conjI impI)
  assume a: "is_429 a"
  show "fst (attempt_step False maxRetry st a) = Continue"
    using attempt_step_429(1) [OF a, of False] by simp
  show "sleeps (snd (attempt_step False maxRetry st a))
        = sleeps st @ [RateLimitSleep (retryAfterWait (header_of a))]"
    using attempt_step_429(2) [OF a, of False] by simp
  show "fst (attempt_step True maxRetry st a) = Return None None"
    using attempt_step_429(1) [OF a, of True] by simp
  show "sleeps (snd (attempt_step True maxRetry st a)) = sleeps st"
    using attempt_step_429(2) [OF a, of True] by simp
next
  assume "Atoi (TrimSpace h) = Some v \<and> 1 \<le> v \<and> v \<le> 9223372036"
  then show "retryAfterWait h = v * Second"
    using retryAfterWait_hint [of h v] by simp
next
  assume "TrimSpace h = [] \<or> Atoi (TrimSpace h) = None \<or> Atoi (TrimSpace h) = Some 0"
  then show "retryAfterWait h = 2 * Second"
    by (rule retryAfterWait_fallback)
next
  assume h: "list_all is_429 as \<and> is_ok ok"
  then have h1: "\<forall>b \<in> set as. is_429 b" and h2: "is_ok ok" by (simp_all add: list_all_iff)
  show "fst (doRequestWithRetry False cnt maxRetry (as @ ok # rest)) = Done (got ok) None"
    by (rule unbounded_429(1) [OF h1 h2])
  show "tries (snd (doRequestWithRetry False cnt maxRetry (as @ ok # rest))) = int (length as) + 1"
    by (rule unbounded_429(3) [OF h1 h2])
  show "sleeps (snd (doRequestWithRetry False cnt maxRetry (as @ ok # rest)))
          = map (\<lambda>b. RateLimitSleep (retryAfterWait (header_of b))) as"
    by (rule unbounded_429(2) [OF h1 h2])
next
  show "fst (doRequestWithRetry False NewCounters 3 [respond 429 ''1'', respond 429 [], respond 200 []])
        = Done (Some \<lparr>StatusCode = 200, RetryAfter = []\<rparr>) None"
    by (simp add: exec_eval)
next
  show "sleeps (snd (doRequestWithRetry False NewCounters 3 [respond 429 ''1'', respond 429 [], respond 200 []]))
        = [RateLimitSleep (1 * Second), RateLimitSleep (2 * Second)]"
    by (simp add: exec_eval)
next
  show "list_all (\<lambda>w. TrimSpace (w @ ''5'' @ w) = ''5'') white_space"
    by (rule trim_white_space(1))
next
  show "list_all (\<lambda>w. TrimSpace (w @ ''5'' @ w) = w @ ''5'' @ w) not_white_space"
    by (rule trim_white_space(2))
qed

text \<open>
  A 429 at the eighth attempt with a bound of 1, the headers \<open>" 120 "\<close>,
  \<open>"soon"\<close> and \<open>"5"\<close> between a no-break space (U+00A0) and an ideographic
  space (U+3000), and five 429 responses before a 200 with a bound of 3.
\<close>

theorem rate_limited_always_retried_witness:
  "is_429 (respond 429 ''5'')
   \<and> fst (attempt_step False 1 \<lparr>tries = 7, backoff = Second, lastStatus = 0, sleeps = [], counters = NewCounters\<rparr>
        (respond 429 ''5'')) = Continue
   \<and> Atoi (TrimSpace '' 120 '') = Some 120 \<and> (1::int) \<le> 120 \<and> (120::int) \<le> 9223372036
   \<and> retryAfterWait '' 120 '' = 120 * Second
   \<and> Atoi (TrimSpace ''soon'') = None \<and> retryAfterWait ''soon'' = 2 * Second
   \<and> TrimSpace [CHR 0xC2, CHR 0xA0, CHR ''5'', CHR 0xE3, CHR 0x80, CHR 0x80] = ''5''
   \<and> retryAfterWait [CHR 0xC2, CHR 0xA0, CHR ''5'', CHR 0xE3, CHR 0x80, CHR 0x80] = 5 * Second
   \<and> list_all is_429 (replicate 5 (respond 429 ''1'')) \<and> is_ok (respond 200 [])
   \<and> fst (doRequestWithRetry False NewCounters 3 (replicate 5 (respond 429 ''1'') @ respond 200 [] # []))
       = Done (got (respond 200 [])) None
   \<and> tries (snd (doRequestWithRetry False NewCounters 3 (replicate 5 (respond 429 ''1'') @ respond 200 [] # [])))
       = 6"
proof -
  let ?st = "\<lparr>tries = 7, backoff = Second, lastStatus = 0, sleeps = [], counters = NewCounters\<rparr>"
  have h1: "is_429 (respond 429 ''5'')" by (simp add: is_429_def respond_def)
  have h2: "Atoi (TrimSpace '' 120 '') = Some 120 \<and> (1::int) \<le> 120 \<and> (120::int) \<le> 9223372036"
    by (simp add: Atoi_def TrimSpace_def is_space_def space2_def space3_def)
  have h3: "Atoi (TrimSpace ''soon'') = None"
    by (simp add: Atoi_def TrimSpace_def is_space_def space2_def space3_def)
  have h4: "list_all is_429 (replicate 5 (respond 429 ''1'')) \<and> is_ok (respond 200 [])"
    by (simp add: is_429_def is_ok_def respond_def list_all_iff)
  let ?nbsp5 = "[CHR 0xC2, CHR 0xA0, CHR ''5'', CHR 0xE3, CHR 0x80, CHR 0x80]"
  have h5: "TrimSpace ?nbsp5 = ''5''"
    by (simp add: TrimSpace_def is_space_def space2_def space3_def)
  have h6: "Atoi (TrimSpace ?nbsp5) = Some 5 \<and> (1::int) \<le> 5 \<and> (5::int) \<le> 9223372036"
    unfolding h5 by (simp add: Atoi_def)
  note t3 = rate_limited_always_retried
    [of "respond 429 ''5''" 1 ?st ?nbsp5 5 "replicate 5 (respond 429 ''1'')" "respond 200 []" NewCounters "[]"]
  have c5: "retryAfterWait ?nbsp5 = 5 * Second"
    using t3 h6 by blast
  note t1 = rate_limited_always_retried
    [of "respond 429 ''5''" 1 ?st "'' 120 ''" 120 "replicate 5 (respond 429 ''1'')" "respond 200 []" NewCounters "[]"]
  note t2 = rate_limited_always_retried
    [of "respond 429 ''5''" 3 ?st "''soon''" 0 "replicate 5 (respond 429 ''1'')" "respond 200 []" NewCounters "[]"]
  have c1: "fst (attempt_step False 1 ?st (respond 429 ''5'')) = Continue"
    using t1 h1 by blast
  have c2: "retryAfterWait '' 120 '' = 120 * Second"
    using t1 h2 by blast
  have c3: "retryAfterWait ''soon'' = 2 * Second"
    using t2 h3 by blast
  have c4: "fst (doRequestWithRetry False NewCounters 3 (replicate 5 (respond 429 ''1'') @ respond 200 [] # []))
       = Done (got (respond 200 [])) None"
    "tries (snd (doRequestWithRetry False NewCounters 3 (replicate 5 (respond 429 ''1'') @ respond 200 [] # [])))
       = int (length (replicate 5 (respond 429 ''1''))) + 1"
    using t2 h4 by blast+
  from h1 h2 h3 h4 h5 c1 c2 c3 c4 c5 show ?thesis by simp
qed

text \<open>
  A Retry-After header that is present with the value 0: the executor sleeps the
  2-second fallback, not the 0 seconds of the hint.
\<close>

theorem retry_after_zero_counterexample:
  "fst (doRequestWithRetry False NewCounters 3 [respond 429 ''0'', respond 200 []])
     = Done (Some \<lparr>StatusCode = 200, RetryAfter = []\<rparr>) None
   \<and> sleeps (snd (doRequestWithRetry False NewCounters 3 [respond 429 ''0'', respond 200 []]))
     = [RateLimitSleep 2000000000]"
  by (simp add: exec_eval)




lemma plain_step_limit:
  assumes "is_429 a \<or> is_5xx a"
  shows "plain_step True st a = (Return None None, st\<lparr>last_status := status_of a\<rparr>)"
  using assms
  by (auto simp: plain_step_def is_429_def is_5xx_def status_of_def Let_def split: option.splits)

lemma plain_step_transport:
  assumes "got a = None"
  shows "plain_step skip st a = (Continue, st\<lparr>slept_for := slept_for st @ [wait_ns st]\<rparr>)"
  using assms by (simp add: plain_step_def)

lemma plain_loop_transport:
  assumes "list_all (\<lambda>a. got a = None) as" "i + int (length as) \<le> maxRetry"
  shows "plain_loop skip maxRetry i st (as @ rest)
           = plain_loop skip maxRetry (i + int (length as))
               (st\<lparr>slept_for := slept_for st @ replicate (length as) (wait_ns st)\<rparr>) rest"
  using assms
proof (induction as arbitrary: i st)
  case Nil
  then show ?case by simp
next
  case (Cons a as)
  let ?st1 = "st\<lparr>slept_for := slept_for st @ [wait_ns st]\<rparr>"
  have a: "got a = None" and as: "list_all (\<lambda>a. got a = None) as"
    using Cons.prems(1) by simp_all
  have i: "i < maxRetry" "(i + 1) + int (length as) \<le> maxRetry"
    using Cons.prems(2) by simp_all
  have "plain_loop skip maxRetry i st ((a # as) @ rest)
          = plain_loop skip maxRetry (i + 1) ?st1 (as @ rest)"
    using i(1) by (simp add: plain_step_transport [OF a])
  also have "\<dots> = plain_loop skip maxRetry ((i + 1) + int (length as))
               (?st1\<lparr>slept_for := slept_for ?st1 @ replicate (length as) (wait_ns ?st1)\<rparr>) rest"
    by (rule Cons.IH [OF as i(2)])
  also have "\<dots> = plain_loop skip maxRetry (i + int (length (a # as)))
               (st\<lparr>slept_for := slept_for st @ replicate (length (a # as)) (wait_ns st)\<rparr>) rest"
    by (simp add: algebra_simps)
  finally show ?case .
qed

lemma plain_loop_done:
  assumes "maxRetry \<le> i"
  shows "plain_loop skip maxRetry i st script = plain_exit skip st"
  using assms by (cases script) simp_all

lemma plain_skip_limit:
  assumes "is_429 a \<or> is_5xx a"
  shows "fst (doRequestWithRetry_plain True maxRetry (a # rest)) = Done None None"
    and "slept_for (snd (doRequestWithRetry_plain True maxRetry (a # rest))) = []"
  using plain_step_limit [OF assms]
  by (simp_all add: doRequestWithRetry_plain_def plain_exit_def)

lemma plain_skip_transport:
  assumes "list_all (\<lambda>a. got a = None) as" "int (length as) = maxRetry"
  shows "fst (doRequestWithRetry_plain True maxRetry (as @ rest)) = Done None None"
    and "slept_for (snd (doRequestWithRetry_plain True maxRetry (as @ rest)))
           = replicate (length as) (1 * Second)"
proof -
  let ?st = "\<lparr>wait_ns = 1 * Second, last_status = 0, slept_for = []\<rparr>"
  have le: "0 + int (length as) \<le> maxRetry" using assms(2) by simp
  have "doRequestWithRetry_plain True maxRetry (as @ rest)
          = plain_loop True maxRetry (0 + int (length as))
              (?st\<lparr>slept_for := slept_for ?st @ replicate (length as) (wait_ns ?st)\<rparr>) rest"
    unfolding doRequestWithRetry_plain_def by (rule plain_loop_transport [OF assms(1) le])
  also have "\<dots> = plain_exit True (?st\<lparr>slept_for := slept_for ?st @ replicate (length as) (wait_ns ?st)\<rparr>)"
    by (rule plain_loop_done) (simp add: assms(2))
  finally have r: "doRequestWithRetry_plain True maxRetry (as @ rest)
      = plain_exit True (?st\<lparr>slept_for := slept_for ?st @ replicate (length as) (wait_ns ?st)\<rparr>)" .
  show "fst (doRequestWithRetry_plain True maxRetry (as @ rest)) = Done None None"
    unfolding r by (simp add: plain_exit_def)
  show "slept_for (snd (doRequestWithRetry_plain True maxRetry (as @ rest)))
           = replicate (length as) (1 * Second)"
    unfolding r by (simp add: plain_exit_def)
qed

lemmas plain_eval = doRequestWithRetry_plain_def plain_step_def plain_exit_def respond_def
  transport_failure_def wrap64_def Second_def Let_def

lemmas site_defs = cli_call_sites_def cli_account_site_def cli_match_list_site_def cli_match_detail_site_def
  cli_rank_site_def cli_mastery_site_def cli_participants_site_def cli_participant_rank_site_def
  cli_lane_champions_site_def web_account_site_def web_match_list_site_def web_match_detail_site_def
  web_rank_site_def web_mastery_site_def web_mastery_names_site_def web_participant_rank_site_def

text \<open>
  C10 (amended).  In best-effort mode a first attempt that yields a 429 response, a 5xx
  response or no response at all makes \<open>doRequestWithRetry\<close>, as the command-line
  program and the web service have it with a limiter, return a nil response with a nil
  error after that single attempt, without any sleep.  The executor without a limiter, of
  the other copy of the command-line program, does the same for a 429 or 5xx response; a
  transport failure it answers, in best-effort mode too, with a sleep of 1 second and
  another attempt, and returns nil, nil once \<open>maxRetry\<close> attempts have failed so.
  Every call site of the command-line program answers nil, nil by skipping the current
  iteration, as do the match-detail and participant-rank call sites of the web service;
  the web service's account and match-list call sites instead return an error from the
  analysis, and its rank and mastery call sites keep the zero default and go on with the
  player.  (The other paths of the executor without a limiter, on examples: a response
  of another status is answered like a transport failure, a 200 or 404 response is
  returned, and with best-effort mode off three 429 or 5xx responses are answered with
  sleeps of 1, 2 and 4 seconds and an error carrying the last status.)
\<close>

theorem best_effort_gives_up:
  "(is_429 a \<or> is_5xx a \<or> got a = None \<longrightarrow>
      fst (doRequestWithRetry True cnt maxRetry (a # rest)) = Done None None
    \<and> sleeps (snd (doRequestWithRetry True cnt maxRetry (a # rest))) = []
    \<and> tries (snd (doRequestWithRetry True cnt maxRetry (a # rest))) = 1)
   \<and> (is_429 a \<or> is_5xx a \<longrightarrow>
      fst (doRequestWithRetry_plain True maxRetry (a # rest)) = Done None None
    \<and> slept_for (snd (doRequestWithRetry_plain True maxRetry (a # rest))) = [])
   \<and> (list_all (\<lambda>b. got b = None) as \<and> int (length as) = maxRetry \<longrightarrow>
      fst (doRequestWithRetry_plain True maxRetry (as @ rest)) = Done None None
    \<and> slept_for (snd (doRequestWithRetry_plain True maxRetry (as @ rest)))
        = replicate (length as) (1 * Second))
   \<and> list_all (\<lambda>site. site None None = SkipIteration) cli_call_sites
   \<and> web_match_detail_site None None = SkipIteration
   \<and> web_participant_rank_site None None = SkipIteration
   \<and> web_account_site None None = ReturnError
   \<and> web_match_list_site None None = ReturnError
   \<and> web_rank_site None None = KeepDefault
   \<and> web_mastery_site None None = KeepDefault
   \<and> web_mastery_names_site None None = KeepDefault
   \<and> doRequestWithRetry_plain True 3 [respond 403 [], transport_failure, respond 404 []]
        = (Done (Some \<lparr>StatusCode = 404, RetryAfter = []\<rparr>) None,
           \<lparr>wait_ns = 1000000000, last_status = 404, slept_for = [1000000000, 1000000000]\<rparr>)
   \<and> doRequestWithRetry_plain True 3 [transport_failure, respond 200 []]
        = (Done (Some \<lparr>StatusCode = 200, RetryAfter = []\<rparr>) None,
           \<lparr>wait_ns = 1000000000, last_status = 0, slept_for = [1000000000]\<rparr>)
   \<and> doRequestWithRetry_plain False 3 [respond 500 [], respond 429 [], respond 502 []]
        = (Done None (Some 502),
           \<lparr>wait_ns = 8000000000, last_status = 502,
             slept_for = [1000000000, 2000000000, 4000000000]\<rparr>)"
proof (intro conjI impI)
  assume h: "is_429 a \<or> is_5xx a \<or> got a = None"
  show "fst (doRequestWithRetry True cnt maxRetry (a # rest)) = Done None None"
    by (rule skip_gives_up(1) [OF h])
  show "sleeps (snd (doRequestWithRetry True cnt maxRetry (a # rest))) = []"
    by (rule skip_gives_up(2) [OF h])
  show "tries (snd (doRequestWithRetry True cnt maxRetry (a # rest))) = 1"
    by (rule skip_gives_up(3) [OF h])
next
  assume h: "is_429 a \<or> is_5xx a"
  show "fst (doRequestWithRetry_plain True maxRetry (a # rest)) = Done None None"
    by (rule plain_skip_limit(1) [OF h])
  show "slept_for (snd (doRequestWithRetry_plain True maxRetry (a # rest))) = []"
    by (rule plain_skip_limit(2) [OF h])
next
  assume h: "list_all (\<lambda>b. got b = None) as \<and> int (length as) = maxRetry"
  show "fst (doRequestWithRetry_plain True maxRetry (as @ rest)) = Done None None"
    by (rule plain_skip_transport(1) [OF h [THEN conjunct1] h [THEN conjunct2]])
  show "slept_for (snd (doRequestWithRetry_plain True maxRetry (as @ rest)))
        = replicate (length as) (1 * Second)"
    by (rule plain_skip_transport(2) [OF h [THEN conjunct1] h [THEN conjunct2]])
next
  show "doRequestWithRetry_plain True 3 [respond 403 [], transport_failure, respond 404 []]
        = (Done (Some \<lparr>StatusCode = 404, RetryAfter = []\<rparr>) None,
           \<lparr>wait_ns = 1000000000, last_status = 404, slept_for = [1000000000, 1000000000]\<rparr>)"
    by (simp add: plain_eval)
next
  show "doRequestWithRetry_plain True 3 [transport_failure, respond 200 []]
        = (Done (Some \<lparr>StatusCode = 200, RetryAfter = []\<rparr>) None,
           \<lparr>wait_ns = 1000000000, last_status = 0, slept_for = [1000000000]\<rparr>)"
    by (simp add: plain_eval)
next
  show "doRequestWithRetry_plain False 3 [respond 500 [], respond 429 [], respond 502 []]
        = (Done None (Some 502),
           \<lparr>wait_ns = 8000000000, last_status = 502,
             slept_for = [1000000000, 2000000000, 4000000000]\<rparr>)"
    by (simp add: plain_eval)
qed (simp_all add: site_defs)

text \<open>
  One observation of each kind for the executor with a limiter; a 503 response, and three
  transport failures with an attempt bound of 3, for the executor without.
\<close>

theorem best_effort_gives_up_witness:
  "(is_429 (respond 429 ''30'') \<or> is_5xx (respond 429 ''30'') \<or> got (respond 429 ''30'') = None)
   \<and> fst (doRequestWithRetry True NewCounters 3 [respond 429 ''30'', respond 200 []]) = Done None None
   \<and> (is_429 (respond 503 []) \<or> is_5xx (respond 503 []) \<or> got (respond 503 []) = None)
   \<and> fst (doRequestWithRetry True NewCounters 3 [respond 503 [], respond 200 []]) = Done None None
   \<and> (is_429 transport_failure \<or> is_5xx transport_failure \<or> got transport_failure = None)
   \<and> fst (doRequestWithRetry True NewCounters 3 [transport_failure, respond 200 []]) = Done None None
   \<and> sleeps (snd (doRequestWithRetry True NewCounters 3 [transport_failure, respond 200 []])) = []
   \<and> (is_429 (respond 503 []) \<or> is_5xx (respond 503 []))
   \<and> fst (doRequestWithRetry_plain True 3 [respond 503 [], respond 200 []]) = Done None None
   \<and> slept_for (snd (doRequestWithRetry_plain True 3 [respond 503 [], respond 200 []])) = []
   \<and> list_all (\<lambda>b. got b = None) [transport_failure, transport_failure, transport_failure]
   \<and> int (length [transport_failure, transport_failure, transport_failure]) = 3
   \<and> fst (doRequestWithRetry_plain True 3
             ([transport_failure, transport_failure, transport_failure] @ [respond 200 []]))
        = Done None None
   \<and> slept_for (snd (doRequestWithRetry_plain True 3
             ([transport_failure, transport_failure, transport_failure] @ [respond 200 []])))
        = [1000000000, 1000000000, 1000000000]
   \<and> list_all (\<lambda>site. site None None = SkipIteration) cli_call_sites
   \<and> length cli_call_sites = 8"
proof -
  let ?tf = "[transport_failure, transport_failure, transport_failure]"
  have h1: "is_429 (respond 429 ''30'') \<or> is_5xx (respond 429 ''30'') \<or> got (respond 429 ''30'') = None"
    by (simp add: is_429_def respond_def)
  have h2: "is_429 (respond 503 []) \<or> is_5xx (respond 503 []) \<or> got (respond 503 []) = None"
    by (simp add: is_5xx_def respond_def)
  have h3: "is_429 transport_failure \<or> is_5xx transport_failure \<or> got transport_failure = None"
    by (simp add: transport_failure_def)
  have h4: "length cli_call_sites = 8"
    by (simp add: cli_call_sites_def)
  have h5: "is_429 (respond 503 []) \<or> is_5xx (respond 503 [])"
    by (simp add: is_5xx_def respond_def)
  have h6: "list_all (\<lambda>b. got b = None) ?tf \<and> int (length ?tf) = 3"
    by (simp add: transport_failure_def)
  note t1 = best_effort_gives_up [of "respond 429 ''30''" NewCounters 3 "[respond 200 []]" ?tf]
  note t2 = best_effort_gives_up [of "respond 503 []" NewCounters 3 "[respond 200 []]" ?tf]
  note t3 = best_effort_gives_up [of transport_failure NewCounters 3 "[respond 200 []]" ?tf]
  have c1: "fst (doRequestWithRetry True NewCounters 3 [respond 429 ''30'', respond 200 []]) = Done None None"
    using t1 [THEN conjunct1] h1 by blast
  have c2: "fst (doRequestWithRetry True NewCounters 3 [respond 503 [], respond 200 []]) = Done None None"
    using t2 [THEN conjunct1] h2 by blast
  have c3: "fst (doRequestWithRetry True NewCounters 3 [transport_failure, respond 200 []]) = Done None None"
    "sleeps (snd (doRequestWithRetry True NewCounters 3 [transport_failure, respond 200 []])) = []"
    using t3 [THEN conjunct1] h3 by blast+
  have c5: "fst (doRequestWithRetry_plain True 3 [respond 503 [], respond 200 []]) = Done None None"
    "slept_for (snd (doRequestWithRetry_plain True 3 [respond 503 [], respond 200 []])) = []"
    using t2 [THEN conjunct2, THEN conjunct1] h5 by blast+
  have c6: "fst (doRequestWithRetry_plain True 3 (?tf @ [respond 200 []])) = Done None None"
    "slept_for (snd (doRequestWithRetry_plain True 3 (?tf @ [respond 200 []])))
       = replicate (length ?tf) (1 * Second)"
    using t2 [THEN conjunct2, THEN conjunct2, THEN conjunct1] h6 by blast+
  have c7: "slept_for (snd (doRequestWithRetry_plain True 3 (?tf @ [respond 200 []])))
       = [1000000000, 1000000000, 1000000000]"
    unfolding c6(2) by (simp add: Second_def numeral_3_eq_3)
  have c4: "list_all (\<lambda>site. site None None = SkipIteration) cli_call_sites"
    by (rule t3 [THEN conjunct2, THEN conjunct2, THEN conjunct2, THEN conjunct1])
  from h1 h2 h3 h4 h5 h6 c1 c2 c3 c5 c6(1) c7 c4 show ?thesis by (intro conjI) simp_all
qed

text \<open>
  The account lookup of the web service answers the nil, nil of best-effort mode with an
  error, not by skipping the player; and the executor without a limiter, in best-effort
  mode, sleeps 1 second after each of three transport failures before it returns nil,
  nil.
\<close>

theorem best_effort_counterexample:
  "fst (doRequestWithRetry True NewCounters 3 [respond 429 []]) = Done None None
   \<and> web_account_site None None = ReturnError
   \<and> web_account_site None None \<noteq> SkipIteration
   \<and> fst (doRequestWithRetry_plain True 3 [transport_failure, transport_failure, transport_failure])
        = Done None None
   \<and> slept_for (snd (doRequestWithRetry_plain True 3 [transport_failure, transport_failure, transport_failure]))
        = [1000000000, 1000000000, 1000000000]"
  by (simp add: exec_eval plain_eval web_account_site_def)
section \<open>Properties of sort.Slice\<close>

lemma mset_sink: "mset (sink lessf x ys) = add_mset x (mset ys)"
  by (induction ys) simp_all

lemma set_sink: "set (sink lessf x ys) = insert x (set ys)"
  using mset_sink [of lessf x ys] by (metis set_mset_add_mset_insert set_mset_mset)

lemma strict_weak_on_subset:
  assumes "strict_weak_on ys lessf" "set xs \<subseteq> set ys"
  shows "strict_weak_on xs lessf"
  using assms unfolding strict_weak_on_def by blast

lemma sorted_sink:
  assumes "strict_weak_on (x # ys) lessf" "sorted_wrt (\<lambda>a b. \<not> lessf a b) ys"
  shows "sorted_wrt (\<lambda>a b. \<not> lessf a b) (sink lessf x ys)"
  using assms
proof (induction ys)
  case Nil
  then show ?case by simp
next
  case (Cons y ys)
  have sw: "strict_weak_on (x # ys) lessf"
    by (rule strict_weak_on_subset [OF Cons.prems(1)]) auto
  have tl: "sorted_wrt (\<lambda>a b. \<not> lessf a b) ys" and hd: "\<forall>z \<in> set ys. \<not> lessf y z"
    using Cons.prems(2) by simp_all
  have asym: "lessf x y \<Longrightarrow> \<not> lessf y x"
    using Cons.prems(1) unfolding strict_weak_on_def by auto
  have ntrans: "\<not> lessf x y \<Longrightarrow> z \<in> set ys \<Longrightarrow> \<not> lessf x z" for z
  proof
    assume a: "\<not> lessf x y" "z \<in> set ys" "lessf x z"
    have "lessf x z \<longrightarrow> lessf x y \<or> lessf y z"
      using Cons.prems(1) a(2) unfolding strict_weak_on_def by simp
    then show False using a hd by blast
  qed
  show ?case
  proof (cases "lessf x y")
    case True
    then show ?thesis
      using Cons.IH [OF sw tl] hd asym by (simp add: set_sink)
  next
    case False
    then show ?thesis
      using Cons.prems(2) ntrans by auto
  qed
qed

lemma insertion_foldl:
  assumes "strict_weak_on (before @ xs) lessf" "sorted_wrt (\<lambda>a b. \<not> lessf a b) before"
  shows "sorted_wrt (\<lambda>a b. \<not> lessf a b) (foldl (\<lambda>before x. sink lessf x before) before xs)"
  using assms
proof (induction xs arbitrary: before)
  case Nil
  then show ?case by simp
next
  case (Cons x xs)
  have sw1: "strict_weak_on (x # before) lessf"
    by (rule strict_weak_on_subset [OF Cons.prems(1)]) auto
  have sw2: "strict_weak_on (sink lessf x before @ xs) lessf"
    by (rule strict_weak_on_subset [OF Cons.prems(1)]) (auto simp: set_sink)
  show ?case
    using Cons.IH [OF sw2 sorted_sink [OF sw1 Cons.prems(2)]] by simp
qed

lemma mset_insertion_foldl:
  "mset (foldl (\<lambda>before x. sink lessf x before) before xs) = mset before + mset xs"
  by (induction xs arbitrary: before) (simp_all add: mset_sink)

lemma mset_insertionSort: "mset (insertionSort lessf xs) = mset xs"
  by (simp add: insertionSort_def mset_insertion_foldl)

lemma descending_insertionSort:
  assumes "strict_weak_on xs lessf"
  shows "descending lessf (insertionSort lessf xs)"
proof -
  have "sorted_wrt (\<lambda>a b. \<not> lessf a b) (foldl (\<lambda>before x. sink lessf x before) [] xs)"
    by (rule insertion_foldl) (simp_all add: assms)
  then show ?thesis
    by (simp add: descending_def insertionSort_def sorted_wrt_rev)
qed

lemma sort_Slice_descending:
  assumes "strict_weak_on xs lessf"
    and "length xs \<le> 12 \<or> (descending lessf (long xs) \<and> mset (long xs) = mset xs)"
  shows "descending lessf (sort_Slice long lessf xs)"
    and "mset (sort_Slice long lessf xs) = mset xs"
  using assms descending_insertionSort [OF assms(1)] mset_insertionSort [of lessf xs]
  by (auto simp: sort_Slice_def)

lemma strict_weak_on_key:
  fixes key :: "'a \<Rightarrow> int"
  shows "strict_weak_on xs (\<lambda>a b. key a > key b)"
  unfolding strict_weak_on_def by auto

lemma descending_key:
  fixes key :: "'a \<Rightarrow> int"
  shows "descending (\<lambda>a b. key a > key b) xs = sorted_desc_by key xs"
proof -
  have "(\<lambda>x y. \<not> key y > key x) = (\<lambda>x y. key y \<le> key x)"
    by (intro ext) auto
  then show ?thesis
    by (simp add: descending_def sorted_desc_by_def sorted_wrt_rev sorted_wrt_map)
qed

lemma sort_Slice_key:
  fixes key :: "'a \<Rightarrow> int"
  assumes "length xs \<le> 12 \<or> (sorted_desc_by key (long xs) \<and> mset (long xs) = mset xs)"
  shows "sorted_desc_by key (sort_Slice long (\<lambda>a b. key a > key b) xs)"
    and "mset (sort_Slice long (\<lambda>a b. key a > key b) xs) = mset xs"
proof -
  have h: "length xs \<le> 12
      \<or> (descending (\<lambda>a b. key a > key b) (long xs) \<and> mset (long xs) = mset xs)"
    using assms by (simp add: descending_key)
  show "sorted_desc_by key (sort_Slice long (\<lambda>a b. key a > key b) xs)"
    using sort_Slice_descending(1)
      [where lessf = "\<lambda>a b. key a > key b" and xs = xs and long = long, OF strict_weak_on_key h]
    by (simp add: descending_key)
  show "mset (sort_Slice long (\<lambda>a b. key a > key b) xs) = mset xs"
    by (rule sort_Slice_descending(2)
      [where lessf = "\<lambda>a b. key a > key b" and xs = xs and long = long, OF strict_weak_on_key h])
qed

section \<open>Properties of the skill score\<close>

lemma wrap64_idem: "wrap64 (wrap64 x) = wrap64 x"
  using wrap64_range [of x] by (intro wrap64_id) simp_all

lemma wrap64_add_right: "wrap64 (a + wrap64 b) = wrap64 (a + b)"
  using wrap64_add_left [of b a] by (simp add: add.commute)

lemma first_solo_find: "first_solo rankData = find is_solo rankData"
  by (induction rankData) (simp_all add: is_solo_def)

lemma currentRankScore_spec: "currentRankScore rankData = spec_currentRankScore rankData"
  by (simp add: currentRankScore_def spec_currentRankScore_def first_solo_find entry_score_def
        split: option.splits)

lemma collect_scores_spec:
  assumes "wrap64 t = t" "wrap64 c = c"
  shows "collect_scores (t, c) participants
     = (wrap64 (t + sum_list (spec_collected participants)),
        wrap64 (c + int (length (spec_collected participants))))"
  using assms
proof (induction participants arbitrary: t c)
  case Nil
  then show ?case by (simp add: spec_collected_def)
next
  case (Cons rankData rest)
  show ?case
  proof (cases "find is_solo rankData")
    case None
    then show ?thesis
      using Cons.IH [OF Cons.prems] by (simp add: first_solo_find spec_collected_def)
  next
    case (Some entry)
    have ih: "collect_scores (add64 t (entry_score entry), add64 c 1) rest
        = (wrap64 (add64 t (entry_score entry) + sum_list (spec_collected rest)),
           wrap64 (add64 c 1 + int (length (spec_collected rest))))"
      by (rule Cons.IH) (simp_all add: add64_def wrap64_idem)
    have sc: "spec_collected (rankData # rest) = entry_score entry # spec_collected rest"
      using Some by (simp add: spec_collected_def)
    show ?thesis
      using Some ih
      by (simp add: first_solo_find sc entry_score_def add64_def wrap64_add_left wrap64_add_right
            algebra_simps)
  qed
qed

lemma length_spec_collected: "length (spec_collected participants) \<le> length participants"
proof (induction participants)
  case Nil
  then show ?case by (simp add: spec_collected_def)
next
  case (Cons rankData rest)
  have "spec_collected (rankData # rest)
          = (case find is_solo rankData of None \<Rightarrow> [] | Some entry \<Rightarrow> [entry_score entry])
            @ spec_collected rest"
    by (simp add: spec_collected_def)
  then show ?case using Cons.IH by (simp split: option.splits)
qed

lemma desc_keys_unique:
  assumes "sorted_desc_by key ys" "mset ys = mset xs"
  shows "map key ys = rev (sort (map key xs))"
proof -
  have "mset (rev (map key ys)) = mset (map key xs)"
    using assms(2) by (metis mset_map mset_rev)
  then have "sort (map key xs) = rev (map key ys)"
    using assms(1) by (intro properties_for_sort) (simp_all add: sorted_desc_by_def)
  then show ?thesis by simp
qed

lemma foldl_add64:
  assumes "wrap64 a = a"
  shows "foldl (\<lambda>s x. add64 s (f x)) a xs = wrap64 (a + sum_list (map f xs))"
  using assms
proof (induction xs arbitrary: a)
  case Nil
  then show ?case by simp
next
  case (Cons x xs)
  have "foldl (\<lambda>s x. add64 s (f x)) (add64 a (f x)) xs
          = wrap64 (add64 a (f x) + sum_list (map f xs))"
    by (rule Cons.IH) (simp add: add64_def wrap64_idem)
  then show ?case
    by (simp add: add64_def wrap64_add_left wrap64_add_right algebra_simps)
qed

lemma wrap64_0: "wrap64 0 = 0"
  by (simp add: wrap64_def)

lemma first_three_points_spec:
  assumes "sorted_desc_by ChampionPoints ys" "mset ys = mset masteries"
  shows "first_three_points ys = spec_topMasterySum masteries"
  using desc_keys_unique [OF assms]
  by (simp add: first_three_points_def foldl_add64 [OF wrap64_0] spec_topMasterySum_def
        take_map [symmetric])

lemma topMastery_spec:
  assumes "length masteries \<le> 12
     \<or> (sorted_desc_by ChampionPoints (long masteries) \<and> mset (long masteries) = mset masteries)"
  shows "topMastery long masteries = spec_topMasterySum masteries"
proof (cases masteries)
  case Nil
  then show ?thesis by (simp add: topMastery_def spec_topMasterySum_def wrap64_0)
next
  case (Cons m ms)
  then show ?thesis
    using first_three_points_spec
      [OF sort_Slice_key [where key = ChampionPoints and xs = masteries and long = long, OF assms]]
    by (simp add: topMastery_def)
qed

lemma skillScore_spec:
  assumes "length participants < 2 ^ 63"
    and "length masteries \<le> 12
     \<or> (sorted_desc_by ChampionPoints (long masteries) \<and> mset (long masteries) = mset masteries)"
  shows "skillScore long rankData participants masteries
           = spec_SkillScore rankData participants masteries"
proof -
  define coll where "coll = spec_collected participants"
  have len: "int (length coll) < 2 ^ 63"
    using length_spec_collected [of participants] assms(1) unfolding coll_def by simp
  have n: "wrap64 (int (length coll)) = int (length coll)"
    using len by (intro wrap64_id) simp_all
  have c: "collect_scores (0, 0) participants = (wrap64 (sum_list coll), int (length coll))"
    using collect_scores_spec [OF wrap64_0 wrap64_0, of participants] n
    by (simp add: coll_def)
  have avg: "(if int (length coll) > 0 then wrap64 (sum_list coll) sdiv int (length coll) else 0)
               = spec_avgMatchRankScore participants"
    by (simp add: spec_avgMatchRankScore_def coll_def Let_def)
  have "skillScore long rankData participants masteries
          = add64 (add64 (mul64 (spec_currentRankScore rankData) 2)
                     (spec_avgMatchRankScore participants))
              (spec_topMasterySum masteries sdiv 1000)"
    unfolding skillScore_def c Let_def prod.case avg
    by (simp only: currentRankScore_spec
          topMastery_spec [where masteries = masteries and long = long, OF assms(2)])
  also have "\<dots> = spec_SkillScore rankData participants masteries"
    by (simp add: spec_SkillScore_def add64_def mul64_def wrap64_add_left wrap64_add_right
          mult.commute)
  finally show ?thesis .
qed

lemma find_SomeD:
  assumes "find P xs = Some x"
  shows "x \<in> set xs"
  using assms by (auto simp: find_Some_iff)

lemma entry_exact:
  assumes "small_entry entry"
  shows "entry_score entry = exact_rankScore entry" and "\<bar>exact_rankScore entry\<bar> \<le> 2 ^ 41"
proof -
  have lp: "\<bar>LeaguePoints entry\<bar> \<le> 2 ^ 40" using assms by (simp add: small_entry_def)
  have "- (2 ^ 62) \<le> LeaguePoints entry" "LeaguePoints entry \<le> 2 ^ 62"
    using lp by simp_all
  then show "entry_score entry = exact_rankScore entry"
    by (simp add: entry_score_def exact_rankScore_def rankScore_exact)
  define t where "t = lookup_int tierToInt (Tier entry)"
  define r where "r = lookup_int rankToInt (Rank entry)"
  have t: "0 \<le> t" "t \<le> 10" using lookup_tier_range [of "Tier entry"] by (simp_all add: t_def)
  have r: "0 \<le> r" "r \<le> 4" using lookup_rank_range [of "Rank entry"] by (simp_all add: r_def)
  have "\<bar>((t - 1) * 4 + (r - 1)) * 100\<bar> \<le> 4000" using t r by simp
  then have "\<bar>((t - 1) * 4 + (r - 1)) * 100 + LeaguePoints entry\<bar> \<le> 2 ^ 41"
    using lp by simp
  then show "\<bar>exact_rankScore entry\<bar> \<le> 2 ^ 41"
    by (simp add: exact_rankScore_def t_def r_def)
qed

lemma collected_exact:
  assumes "list_all (list_all small_entry) participants"
  shows "spec_collected participants = exact_collected participants"
    and "\<forall>s \<in> set (exact_collected participants). \<bar>s\<bar> \<le> 2 ^ 41"
  using assms
proof (induction participants)
  case Nil
  {
    case 1
    show ?case by (simp add: spec_collected_def exact_collected_def)
  next
    case 2
    show ?case by (simp add: exact_collected_def)
  }
next
  case (Cons rankData rest)
  {
    case 1
    have rest: "spec_collected rest = exact_collected rest"
      using Cons.IH(1) 1 by simp
    have hd: "(case find is_solo rankData of None \<Rightarrow> [] | Some entry \<Rightarrow> [entry_score entry])
            = (case find is_solo rankData of None \<Rightarrow> [] | Some entry \<Rightarrow> [exact_rankScore entry])"
    proof (cases "find is_solo rankData")
      case None
      then show ?thesis by simp
    next
      case (Some entry)
      have "small_entry entry"
        using find_SomeD [OF Some] 1 by (simp add: list_all_iff)
      then show ?thesis using Some entry_exact(1) by simp
    qed
    have "spec_collected (rankData # rest)
            = (case find is_solo rankData of None \<Rightarrow> [] | Some entry \<Rightarrow> [entry_score entry])
              @ spec_collected rest"
      by (simp add: spec_collected_def)
    also have "\<dots> = (case find is_solo rankData of None \<Rightarrow> [] | Some entry \<Rightarrow> [exact_rankScore entry])
              @ exact_collected rest"
      by (simp only: hd rest)
    also have "\<dots> = exact_collected (rankData # rest)"
      by (simp add: exact_collected_def)
    finally show ?case .
  next
    case 2
    have rest: "\<forall>s \<in> set (exact_collected rest). \<bar>s\<bar> \<le> 2 ^ 41"
      using Cons.IH(2) 2 by simp
    have hd: "\<forall>s \<in> set (case find is_solo rankData of None \<Rightarrow> [] | Some entry \<Rightarrow> [exact_rankScore entry]).
                \<bar>s\<bar> \<le> 2 ^ 41"
    proof (cases "find is_solo rankData")
      case None
      then show ?thesis by simp
    next
      case (Some entry)
      have "small_entry entry"
        using find_SomeD [OF Some] 2 by (simp add: list_all_iff)
      then show ?thesis using Some entry_exact(2) by simp
    qed
    have "exact_collected (rankData # rest)
            = (case find is_solo rankData of None \<Rightarrow> [] | Some entry \<Rightarrow> [exact_rankScore entry])
              @ exact_collected rest"
      by (simp add: exact_collected_def)
    then show ?case using hd rest by auto
  }
qed

lemma abs_sum_list_bound:
  fixes xs :: "int list"
  assumes "\<forall>x \<in> set xs. \<bar>x\<bar> \<le> c"
  shows "\<bar>sum_list xs\<bar> \<le> c * int (length xs)"
  using assms
proof (induction xs)
  case Nil
  then show ?case by simp
next
  case (Cons x xs)
  have "\<bar>x\<bar> \<le> c" "\<bar>sum_list xs\<bar> \<le> c * int (length xs)"
    using Cons by simp_all
  then have "\<bar>x + sum_list xs\<bar> \<le> c + c * int (length xs)"
    by linarith
  then show ?case by (simp add: algebra_simps)
qed

lemma sdiv_abs_le:
  fixes a b :: int
  assumes "0 < b"
  shows "\<bar>a sdiv b\<bar> \<le> \<bar>a\<bar>"
proof -
  have nn: "0 \<le> \<bar>a\<bar> div b"
    using assms by (simp add: pos_imp_zdiv_nonneg_iff)
  have "a sdiv b = sgn a * (\<bar>a\<bar> div b)"
    using assms by (simp add: signed_divide_int_def)
  then have "\<bar>a sdiv b\<bar> = \<bar>sgn a\<bar> * (\<bar>a\<bar> div b)"
    using nn by (simp add: abs_mult)
  also have "\<dots> \<le> 1 * (\<bar>a\<bar> div b)"
    using nn by (intro mult_right_mono) (simp_all add: abs_sgn_eq)
  also have "\<dots> \<le> \<bar>a\<bar>"
    using zdiv_mono2 [of "\<bar>a\<bar>" 1 b] assms by simp
  finally show ?thesis .
qed

lemma spec_exact:
  assumes "small_input rankData participants masteries"
  shows "spec_SkillScore rankData participants masteries
           = exact_SkillScore rankData participants masteries"
proof -
  have s1: "list_all small_entry rankData" and s2: "list_all (list_all small_entry) participants"
    and s3: "length participants \<le> 2 ^ 20"
    and s4: "list_all (\<lambda>m. \<bar>ChampionPoints m\<bar> \<le> 2 ^ 40) masteries"
    using assms by (simp_all add: small_input_def)
  define cur where "cur = (case find is_solo rankData of None \<Rightarrow> 0 | Some entry \<Rightarrow> exact_rankScore entry)"
  define ec where "ec = exact_collected participants"
  define avg where "avg = (if ec = [] then 0 else sum_list ec sdiv int (length ec))"
  define tp where "tp = take 3 (rev (sort (map ChampionPoints masteries)))"
  have cur: "spec_currentRankScore rankData = cur" and curb: "\<bar>cur\<bar> \<le> 2 ^ 41"
  proof -
    show "spec_currentRankScore rankData = cur"
    proof (cases "find is_solo rankData")
      case None
      then show ?thesis by (simp add: spec_currentRankScore_def cur_def)
    next
      case (Some entry)
      have "small_entry entry" using find_SomeD [OF Some] s1 by (simp add: list_all_iff)
      then show ?thesis using Some entry_exact(1) by (simp add: spec_currentRankScore_def cur_def)
    qed
    show "\<bar>cur\<bar> \<le> 2 ^ 41"
    proof (cases "find is_solo rankData")
      case None
      then show ?thesis by (simp add: cur_def)
    next
      case (Some entry)
      have "small_entry entry" using find_SomeD [OF Some] s1 by (simp add: list_all_iff)
      then show ?thesis using Some entry_exact(2) by (simp add: cur_def)
    qed
  qed
  have coll: "spec_collected participants = ec"
    using collected_exact(1) [OF s2] by (simp add: ec_def)
  have ecb: "\<forall>s \<in> set ec. \<bar>s\<bar> \<le> 2 ^ 41"
    using collected_exact(2) [OF s2] by (simp add: ec_def)
  have "length ec \<le> length participants"
    using length_spec_collected [of participants] coll by simp
  then have lenb: "int (length ec) \<le> 2 ^ 20" using s3 by simp
  have "\<bar>sum_list ec\<bar> \<le> 2 ^ 41 * int (length ec)"
    by (rule abs_sum_list_bound [OF ecb])
  also have "\<dots> \<le> 2 ^ 41 * 2 ^ 20"
    using lenb by (intro mult_left_mono) simp_all
  finally have sumb: "\<bar>sum_list ec\<bar> \<le> 2 ^ 61" by simp
  have w1: "wrap64 (sum_list ec) = sum_list ec"
    using sumb by (intro wrap64_id) simp_all
  have avg: "spec_avgMatchRankScore participants = avg"
    by (simp add: spec_avgMatchRankScore_def coll avg_def w1 Let_def)
  have avgb: "\<bar>avg\<bar> \<le> 2 ^ 61"
  proof (cases "ec = []")
    case True
    then show ?thesis by (simp add: avg_def)
  next
    case False
    then have "0 < int (length ec)" by simp
    from sdiv_abs_le [OF this, of "sum_list ec"] sumb show ?thesis
      using False by (simp add: avg_def)
  qed
  have "set tp \<subseteq> set (map ChampionPoints masteries)"
    unfolding tp_def using set_take_subset [of 3 "rev (sort (map ChampionPoints masteries))"] by simp
  then have tpe: "\<forall>x \<in> set tp. \<bar>x\<bar> \<le> 2 ^ 40"
    using s4 by (auto simp: list_all_iff)
  have "\<bar>sum_list tp\<bar> \<le> 2 ^ 40 * int (length tp)"
    by (rule abs_sum_list_bound [OF tpe])
  also have "\<dots> \<le> 2 ^ 40 * 3"
    by (intro mult_left_mono) (simp_all add: tp_def)
  finally have tpb: "\<bar>sum_list tp\<bar> \<le> 3 * 2 ^ 40" by simp
  have w2: "wrap64 (sum_list tp) = sum_list tp"
    using tpb by (intro wrap64_id) simp_all
  have top: "spec_topMasterySum masteries = sum_list tp"
    by (simp add: spec_topMasterySum_def tp_def [symmetric] w2)
  have topb: "\<bar>sum_list tp sdiv 1000\<bar> \<le> 3 * 2 ^ 40"
    using sdiv_abs_le [of 1000 "sum_list tp"] tpb by simp
  have "\<bar>2 * cur + avg + sum_list tp sdiv 1000\<bar> \<le> 2 * 2 ^ 41 + 2 ^ 61 + 3 * 2 ^ 40"
    using curb avgb topb by linarith
  then have w3: "wrap64 (2 * cur + avg + sum_list tp sdiv 1000) = 2 * cur + avg + sum_list tp sdiv 1000"
    by (intro wrap64_id) simp_all
  have "spec_SkillScore rankData participants masteries = 2 * cur + avg + sum_list tp sdiv 1000"
    by (simp only: spec_SkillScore_def cur avg top w3)
  also have "\<dots> = exact_SkillScore rankData participants masteries"
    by (simp add: exact_SkillScore_def cur_def avg_def ec_def tp_def)
  finally show ?thesis .
qed

text \<open>
  C9.  The skill score computed by the aggregation equals
  \<open>2 * currentRankScore + avgMatchRankScore + topMasterySum / 1000\<close> with the three
  terms as the specification words them, in the arithmetic of Go's \<open>int\<close>: truncating
  division, and sums and products that wrap around at 64 bits.  On inputs with league
  points and champion points of magnitude at most \<open>2 ^ 40\<close> and at most \<open>2 ^ 20\<close>
  participants nothing wraps around, and the skill score is the value of the formula in
  the integers.  Of the sort of more than 12 mastery entries only this is used: its result
  is a rearrangement of the entries that is descending by points.  The sum over the first
  three entries is the same for every such arrangement, whatever the order among equal
  points.
\<close>

theorem skillScore_formula:
  "(length participants < 2 ^ 63
      \<and> (length masteries \<le> 12
           \<or> sorted_desc_by ChampionPoints (long masteries) \<and> mset (long masteries) = mset masteries)
      \<longrightarrow> skillScore long rankData participants masteries
            = spec_SkillScore rankData participants masteries)
   \<and> (small_input rankData participants masteries
      \<and> (length masteries \<le> 12
           \<or> sorted_desc_by ChampionPoints (long masteries) \<and> mset (long masteries) = mset masteries)
      \<longrightarrow> skillScore long rankData participants masteries
            = exact_SkillScore rankData participants masteries)
   \<and> (sorted_desc_by ChampionPoints arranged \<and> mset arranged = mset masteries
        \<longrightarrow> first_three_points arranged = spec_topMasterySum masteries)"
proof (intro conjI impI)
  assume h: "length participants < 2 ^ 63
      \<and> (length masteries \<le> 12
           \<or> sorted_desc_by ChampionPoints (long masteries) \<and> mset (long masteries) = mset masteries)"
  show "skillScore long rankData participants masteries
            = spec_SkillScore rankData participants masteries"
    by (rule skillScore_spec [where long = long, OF h [THEN conjunct1] h [THEN conjunct2]])
next
  assume h: "small_input rankData participants masteries
      \<and> (length masteries \<le> 12
           \<or> sorted_desc_by ChampionPoints (long masteries) \<and> mset (long masteries) = mset masteries)"
  have "length participants \<le> 2 ^ 20"
    using h by (simp add: small_input_def)
  then have len: "length participants < 2 ^ 63"
    by (rule le_less_trans) simp
  have "skillScore long rankData participants masteries
          = spec_SkillScore rankData participants masteries"
    by (rule skillScore_spec [where long = long, OF len h [THEN conjunct2]])
  then show "skillScore long rankData participants masteries
            = exact_SkillScore rankData participants masteries"
    using spec_exact [OF h [THEN conjunct1]] by simp
next
  assume "sorted_desc_by ChampionPoints arranged \<and> mset arranged = mset masteries"
  then show "first_three_points arranged = spec_topMasterySum masteries"
    using first_three_points_spec [of arranged masteries] by simp
qed

text \<open>
  A player with rank score 1450, two collected participant scores 1600 and 1275 (mean
  1437) and champion points 5000, 120000, 7999, 120000: the skill score is
  2900 + 1437 + 247.  The same player with the 13 mastery entries, sorted by a sort that
  happens to reverse them: 2900 + 1437 + 36.  The player with league points
  \<open>2 ^ 63 - 1\<close>: the rank score wraps around to \<open>- 9223372036854774409\<close> and the
  skill score, twice that, to 2798.
\<close>

theorem skillScore_formula_witness:
  "small_input sample_rankData sample_participants sample_masteries
   \<and> length sample_masteries \<le> 12
   \<and> skillScore id sample_rankData sample_participants sample_masteries = 4584
   \<and> small_input sample_rankData sample_participants many_masteries
   \<and> 12 < length many_masteries
   \<and> sorted_desc_by ChampionPoints (rev many_masteries)
   \<and> mset (rev many_masteries) = mset many_masteries
   \<and> skillScore rev sample_rankData sample_participants many_masteries = 4373
   \<and> length ([] :: RankEntry list list) < 2 ^ 63
   \<and> length ([] :: Mastery list) \<le> 12
   \<and> currentRankScore huge_rankData = - 9223372036854774409
   \<and> skillScore id huge_rankData [] [] = 2798
   \<and> sorted_desc_by ChampionPoints [mastery 4 120000, mastery 2 120000, mastery 3 7999, mastery 1 5000]
   \<and> mset [mastery 4 120000, mastery 2 120000, mastery 3 7999, mastery 1 5000] = mset sample_masteries
   \<and> first_three_points [mastery 4 120000, mastery 2 120000, mastery 3 7999, mastery 1 5000] = 247999
   \<and> spec_topMasterySum sample_masteries = 247999"
proof -
  let ?arranged = "[mastery 4 120000, mastery 2 120000, mastery 3 7999, mastery 1 5000]"
  have s1: "small_input sample_rankData sample_participants sample_masteries"
    by (simp add: small_input_def small_entry_def sample_rankData_def sample_participants_def
          sample_masteries_def mastery_def)
  have s2: "small_input sample_rankData sample_participants many_masteries"
    by (simp add: small_input_def small_entry_def sample_rankData_def sample_participants_def
          many_masteries_def mastery_def)
  have l1: "length sample_masteries \<le> 12" by (simp add: sample_masteries_def)
  have l2: "12 < length many_masteries" by (simp add: many_masteries_def)
  have r1: "sorted_desc_by ChampionPoints (rev many_masteries)"
    by (simp add: sorted_desc_by_def many_masteries_def mastery_def)
  have r2: "mset (rev many_masteries) = mset many_masteries" by simp
  have l3: "length ([] :: RankEntry list list) < 2 ^ 63" by simp
  have l4: "length ([] :: Mastery list) \<le> 12" by simp
  have h1: "sorted_desc_by ChampionPoints ?arranged"
    by (simp add: sorted_desc_by_def mastery_def)
  have h2: "mset ?arranged = mset sample_masteries"
    by (simp add: sample_masteries_def)
  have top: "spec_topMasterySum sample_masteries = 247999"
    by code_simp
  have e1: "exact_SkillScore sample_rankData sample_participants sample_masteries = 4584"
    by code_simp
  have e2: "exact_SkillScore sample_rankData sample_participants many_masteries = 4373"
    by code_simp
  have e3: "spec_SkillScore huge_rankData [] [] = 2798"
    by code_simp
  have e4: "currentRankScore huge_rankData = - 9223372036854774409"
    by code_simp
  note t1 = skillScore_formula [of sample_participants sample_masteries id sample_rankData ?arranged]
  note t2 = skillScore_formula [of sample_participants many_masteries rev sample_rankData ?arranged]
  note t3 = skillScore_formula [of "[]" "[]" id huge_rankData "[]"]
  have c1: "skillScore id sample_rankData sample_participants sample_masteries = 4584"
    using t1 [THEN conjunct2, THEN conjunct1] s1 l1 e1 by simp
  have c2: "skillScore rev sample_rankData sample_participants many_masteries = 4373"
    using t2 [THEN conjunct2, THEN conjunct1] s2 r1 r2 e2 by simp
  have c3: "skillScore id huge_rankData [] [] = 2798"
    using t3 [THEN conjunct1] l3 l4 e3 by simp
  have c4: "first_three_points ?arranged = 247999"
    using t1 [THEN conjunct2, THEN conjunct2] h1 h2 top by simp
  from s1 l1 c1 s2 l2 r1 r2 c2 l3 l4 e4 c3 h1 h2 c4 top show ?thesis by (intro conjI)
qed
section \<open>Properties of the team split and of the greedy fallback\<close>

lemma alternate_positions:
  assumes "wrap64 sumA = sumA" "wrap64 sumB = sumB"
  shows "alternate i ps (teamA, teamB, sumA, sumB) =
     (teamA @ map snd (filter (\<lambda>(j, x). even j) (enumerate i ps)),
      teamB @ map snd (filter (\<lambda>(j, x). odd j) (enumerate i ps)),
      wrap64 (sumA + sum_list (map skill_score (map snd (filter (\<lambda>(j, x). even j) (enumerate i ps))))),
      wrap64 (sumB + sum_list (map skill_score (map snd (filter (\<lambda>(j, x). odd j) (enumerate i ps))))))"
  using assms
proof (induction ps arbitrary: i teamA teamB sumA sumB)
  case Nil
  then show ?case by simp
next
  case (Cons p ps)
  show ?case
  proof (cases "even i")
    case True
    then have m: "i mod 2 = 0" by presburger
    have w: "wrap64 (add64 sumA (skill_score p)) = add64 sumA (skill_score p)"
      by (simp add: add64_def wrap64_idem)
    show ?thesis
      using True m Cons.IH [OF w Cons.prems(2), of "i + 1" "teamA @ [p]" teamB] Cons.prems
      by (simp add: add64_def wrap64_add_left add.assoc)
  next
    case False
    then have m: "i mod 2 \<noteq> 0" by presburger
    have w: "wrap64 (add64 sumB (skill_score p)) = add64 sumB (skill_score p)"
      by (simp add: add64_def wrap64_idem)
    show ?thesis
      using False m Cons.IH [OF Cons.prems(1) w, of "i + 1" teamA "teamB @ [p]"] Cons.prems
      by (simp add: add64_def wrap64_add_left add.assoc)
  qed
qed

lemma teamSplit_positions:
  assumes "2 \<le> length allPlayerData"
  shows "teamSplit long allPlayerData =
           Some (at_positions even (sort_Slice long (\<lambda>a b. skill_score a > skill_score b) allPlayerData),
                 at_positions odd (sort_Slice long (\<lambda>a b. skill_score a > skill_score b) allPlayerData),
                 wrap64 (sum_list (map skill_score
                   (at_positions even (sort_Slice long (\<lambda>a b. skill_score a > skill_score b) allPlayerData)))),
                 wrap64 (sum_list (map skill_score
                   (at_positions odd (sort_Slice long (\<lambda>a b. skill_score a > skill_score b) allPlayerData)))))"
  using assms alternate_positions [OF wrap64_0 wrap64_0]
  by (simp add: teamSplit_def at_positions_def)

lemma f_sum_snoc: "f_sum ops score (team @ [p]) = f_add ops (f_sum ops score team) (score p)"
  by (simp add: f_sum_def)

lemma f_sum_Nil: "f_sum ops score [] = f_zero ops"
  by (simp add: f_sum_def)

lemma f_sum_map: "f_sum ops score (map g team) = f_sum ops (\<lambda>p. score (g p)) team"
  by (simp add: f_sum_def foldl_map)

lemma greedy_loop_snoc:
  "greedy_loop ops (arr @ [a]) st =
     (case greedy_loop ops arr st of
        (teamA, teamB, sumA, sumB) \<Rightarrow>
          if f_le ops sumA sumB then (teamA @ [fst a], teamB, f_add ops sumA (snd a), sumB)
          else (teamA, teamB @ [fst a], sumA, f_add ops sumB (snd a)))"
proof (induction arr arbitrary: st)
  case Nil
  then show ?case by (cases st) simp
next
  case (Cons b arr)
  obtain teamA teamB sumA sumB where st: "st = (teamA, teamB, sumA, sumB)"
    by (cases st) auto
  show ?case
    unfolding st using Cons.IH by simp
qed

lemma greedy_loop_spec:
  "greedy_loop ops arr ([], [], f_zero ops, f_zero ops) =
     (map fst (fst (spec_greedy ops snd arr)), map fst (snd (spec_greedy ops snd arr)),
      f_sum ops snd (fst (spec_greedy ops snd arr)),
      f_sum ops snd (snd (spec_greedy ops snd arr)))"
proof (induction arr rule: rev_induct)
  case Nil
  then show ?case by (simp add: spec_greedy_def f_sum_Nil)
next
  case (snoc a arr)
  obtain teamA teamB where sg: "spec_greedy ops snd arr = (teamA, teamB)"
    by (cases "spec_greedy ops snd arr") auto
  have step: "spec_greedy ops snd (arr @ [a]) =
      (if f_le ops (f_sum ops snd teamA) (f_sum ops snd teamB)
       then (teamA @ [a], teamB) else (teamA, teamB @ [a]))"
    using sg by (simp add: spec_greedy_def)
  show ?case
    using snoc.IH by (simp add: greedy_loop_snoc sg step f_sum_snoc)
qed

lemma greedy_fallback_spec:
  "greedy_fallback long ops Predict players =
     (map fst (fst (spec_greedy ops snd (greedy_order long ops Predict players))),
      map fst (snd (spec_greedy ops snd (greedy_order long ops Predict players))))"
proof -
  have o: "sort_Slice long (\<lambda>a b. f_gt ops (snd a) (snd b)) (map (\<lambda>p. (p, Predict p)) players)
             = greedy_order long ops Predict players"
    by (simp add: greedy_order_def scored_def by_score_def [abs_def])
  show ?thesis
    unfolding greedy_fallback_def Let_def o greedy_loop_spec by simp
qed

lemma sample_roster_sorted:
  "sort_Slice long (\<lambda>a b. skill_score a > skill_score b) sample_roster
     = [player ''A'' 1500, player ''B'' 1300, player ''C'' 1200, player ''D'' 1000]"
  by (simp add: sort_Slice_def insertionSort_def sample_roster_def player_def)

lemma sample_order:
  "greedy_order long sample_ops id [Num 1500, Num 1300, Num 1200, Num 1000]
     = [(Num 1500, Num 1500), (Num 1300, Num 1300), (Num 1200, Num 1200), (Num 1000, Num 1000)]"
  by (simp add: greedy_order_def scored_def sort_Slice_def insertionSort_def by_score_def
        sample_ops_def sample_lt_def)

lemmas sample_arith = sample_ops_def sample_add_def sample_sub_def sample_abs_def sample_lt_def
  sample_le_def f_sum_def

text \<open>
  C3 (amended).  The team split of the programs, for every roster of at least 2 players,
  sorts the players by skill score and assigns them by position: the first, third, ... to
  team A and the second, fourth, ... to team B, with the sums of their scores as Go
  \<open>int\<close>s; with fewer than 2 players there is no split.  The sorted order is a
  rearrangement of the roster that is descending by skill score; on at most 12 players it
  is the one of the library's insertion sort, on more it is the one of the library's
  quicksort, of which this is all that is used.  On the roster with scores 1500, 1300,
  1200, 1000 the split is team A = 1500, 1200 with sum 2700 and team B = 1300, 1000 with
  sum 2300.  The fallback of \<open>BalanceTeams\<close> goes through the players, paired with
  their scores, in the order that the sort with \<open>arr[i].s > arr[j].s\<close> gives them,
  and assigns each to the team whose score sum so far is lower, to team A when the sum of
  team A is \<open><=\<close> that of team B; the sums are those of \<open>float64\<close>, accumulated
  in the order of assignment.  When \<open>>\<close> is a strict weak order on the scores of the
  roster (there is no NaN), that order is descending by score.  Applied to the scores
  1500, 1300, 1200, 1000 the fallback yields team A = 1500, 1000 and team B = 1300, 1200,
  with score sums of 2500 each.
\<close>

theorem team_split_strategies:
  "(2 \<le> length allPlayerData \<longrightarrow>
      teamSplit long allPlayerData =
        Some (at_positions even (sort_Slice long (\<lambda>a b. skill_score a > skill_score b) allPlayerData),
              at_positions odd (sort_Slice long (\<lambda>a b. skill_score a > skill_score b) allPlayerData),
              wrap64 (sum_list (map skill_score
                (at_positions even (sort_Slice long (\<lambda>a b. skill_score a > skill_score b) allPlayerData)))),
              wrap64 (sum_list (map skill_score
                (at_positions odd (sort_Slice long (\<lambda>a b. skill_score a > skill_score b) allPlayerData))))))
   \<and> (length allPlayerData \<le> 12
        \<or> sorted_desc_by skill_score (long allPlayerData) \<and> mset (long allPlayerData) = mset allPlayerData
      \<longrightarrow> sorted_desc_by skill_score (sort_Slice long (\<lambda>a b. skill_score a > skill_score b) allPlayerData)
        \<and> mset (sort_Slice long (\<lambda>a b. skill_score a > skill_score b) allPlayerData) = mset allPlayerData)
   \<and> teamSplit long sample_roster =
        Some ([player ''A'' 1500, player ''C'' 1200], [player ''B'' 1300, player ''D'' 1000], 2700, 2300)
   \<and> greedy_fallback long2 ops Predict players =
        (map fst (fst (spec_greedy ops snd (greedy_order long2 ops Predict players))),
         map fst (snd (spec_greedy ops snd (greedy_order long2 ops Predict players))))
   \<and> (strict_weak_on (scored Predict players) (by_score ops)
        \<and> (length players \<le> 12
             \<or> descending (by_score ops) (long2 (scored Predict players))
               \<and> mset (long2 (scored Predict players)) = mset (scored Predict players))
      \<longrightarrow> descending (by_score ops) (greedy_order long2 ops Predict players)
        \<and> mset (greedy_order long2 ops Predict players) = mset (scored Predict players))
   \<and> greedy_fallback long3 sample_ops id [Num 1500, Num 1300, Num 1200, Num 1000]
        = ([Num 1500, Num 1000], [Num 1300, Num 1200])
   \<and> f_sum sample_ops id [Num 1500, Num 1000] = Num 2500
   \<and> f_sum sample_ops id [Num 1300, Num 1200] = Num 2500
   \<and> (length few < 2 \<longrightarrow> teamSplit long few = None)"
proof (intro conjI impI)
  assume "2 \<le> length allPlayerData"
  then show "teamSplit long allPlayerData =
        Some (at_positions even (sort_Slice long (\<lambda>a b. skill_score a > skill_score b) allPlayerData),
              at_positions odd (sort_Slice long (\<lambda>a b. skill_score a > skill_score b) allPlayerData),
              wrap64 (sum_list (map skill_score
                (at_positions even (sort_Slice long (\<lambda>a b. skill_score a > skill_score b) allPlayerData)))),
              wrap64 (sum_list (map skill_score
                (at_positions odd (sort_Slice long (\<lambda>a b. skill_score a > skill_score b) allPlayerData)))))"
    by (rule teamSplit_positions)
next
  assume h: "length allPlayerData \<le> 12
        \<or> sorted_desc_by skill_score (long allPlayerData) \<and> mset (long allPlayerData) = mset allPlayerData"
  show "sorted_desc_by skill_score (sort_Slice long (\<lambda>a b. skill_score a > skill_score b) allPlayerData)"
    by (rule sort_Slice_key(1) [where key = skill_score and xs = allPlayerData and long = long, OF h])
  show "mset (sort_Slice long (\<lambda>a b. skill_score a > skill_score b) allPlayerData) = mset allPlayerData"
    by (rule sort_Slice_key(2) [where key = skill_score and xs = allPlayerData and long = long, OF h])
next
  have "2 \<le> length sample_roster" by (simp add: sample_roster_def)
  from teamSplit_positions [OF this, of long]
  show "teamSplit long sample_roster =
        Some ([player ''A'' 1500, player ''C'' 1200], [player ''B'' 1300, player ''D'' 1000], 2700, 2300)"
    unfolding sample_roster_sorted
    by (simp add: at_positions_def player_def wrap64_def)
next
  show "greedy_fallback long2 ops Predict players =
        (map fst (fst (spec_greedy ops snd (greedy_order long2 ops Predict players))),
         map fst (snd (spec_greedy ops snd (greedy_order long2 ops Predict players))))"
    by (rule greedy_fallback_spec)
next
  assume h: "strict_weak_on (scored Predict players) (by_score ops)
        \<and> (length players \<le> 12
             \<or> descending (by_score ops) (long2 (scored Predict players))
               \<and> mset (long2 (scored Predict players)) = mset (scored Predict players))"
  have h2: "length (scored Predict players) \<le> 12
             \<or> descending (by_score ops) (long2 (scored Predict players))
               \<and> mset (long2 (scored Predict players)) = mset (scored Predict players)"
    using h by (simp add: scored_def)
  show "descending (by_score ops) (greedy_order long2 ops Predict players)"
    unfolding greedy_order_def
    by (rule sort_Slice_descending(1)
      [where lessf = "by_score ops" and xs = "scored Predict players" and long = long2,
        OF h [THEN conjunct1] h2])
  show "mset (greedy_order long2 ops Predict players) = mset (scored Predict players)"
    unfolding greedy_order_def
    by (rule sort_Slice_descending(2)
      [where lessf = "by_score ops" and xs = "scored Predict players" and long = long2,
        OF h [THEN conjunct1] h2])
next
  show "greedy_fallback long3 sample_ops id [Num 1500, Num 1300, Num 1200, Num 1000]
        = ([Num 1500, Num 1000], [Num 1300, Num 1200])"
    unfolding greedy_fallback_spec sample_order
    by (simp add: spec_greedy_def sample_arith)
next
  show "f_sum sample_ops id [Num 1500, Num 1000] = Num 2500"
    by (simp add: sample_arith)
next
  show "f_sum sample_ops id [Num 1300, Num 1200] = Num 2500"
    by (simp add: sample_arith)
next
  assume "length few < 2"
  then show "teamSplit long few = None"
    by (simp add: teamSplit_def)
qed

text \<open>
  The roster of the example; the roster of 13 players, with a sort that happens to
  reverse it; rosters of 12 and of 13 players with equal scores, which the insertion sort
  leaves in their order and that sort reverses; and the scores 3, 7, 7 in the fallback.
\<close>

theorem team_split_strategies_witness:
  "length [player ''A'' 1500] < 2
   \<and> teamSplit id [player ''A'' 1500] = None
   \<and> 2 \<le> length sample_roster
   \<and> teamSplit id sample_roster =
        Some ([player ''A'' 1500, player ''C'' 1200], [player ''B'' 1300, player ''D'' 1000], 2700, 2300)
   \<and> 2 \<le> length ascending_roster
   \<and> 12 < length ascending_roster
   \<and> sorted_desc_by skill_score (rev ascending_roster)
   \<and> mset (rev ascending_roster) = mset ascending_roster
   \<and> sorted_desc_by skill_score
        (sort_Slice rev (\<lambda>a b. skill_score a > skill_score b) ascending_roster)
   \<and> teamSplit rev ascending_roster =
        Some (map (player []) [13, 11, 9, 7, 5, 3, 1], map (player []) [12, 10, 8, 6, 4, 2], 49, 42)
   \<and> teamSplit rev (tied_roster 12) =
        Some (map tied [1, 3, 5, 7, 9, 11], map tied [2, 4, 6, 8, 10, 12], 6000, 6000)
   \<and> teamSplit rev (tied_roster 13) =
        Some (map tied [13, 11, 9, 7, 5, 3, 1], map tied [12, 10, 8, 6, 4, 2], 7000, 6000)
   \<and> strict_weak_on (scored id [Num 3, Num 7, Num 7]) (by_score sample_ops)
   \<and> length [Num 3, Num 7, Num 7] \<le> 12
   \<and> greedy_order id sample_ops id [Num 3, Num 7, Num 7]
        = [(Num 7, Num 7), (Num 7, Num 7), (Num 3, Num 3)]
   \<and> descending (by_score sample_ops) (greedy_order id sample_ops id [Num 3, Num 7, Num 7])
   \<and> greedy_fallback id sample_ops id [Num 3, Num 7, Num 7] = ([Num 7, Num 3], [Num 7])"
proof -
  let ?cmp = "\<lambda>a b. skill_score a > skill_score b"
  let ?fs = "[Num 3, Num 7, Num 7]"
  note t1 = team_split_strategies
    [where allPlayerData = sample_roster and long = id and ?long2.0 = id and ops = sample_ops
       and Predict = id and players = ?fs and ?long3.0 = id and few = "[player ''A'' 1500]"]
  note t2 = team_split_strategies
    [where allPlayerData = ascending_roster and long = rev and ?long2.0 = id and ops = sample_ops
       and Predict = id and players = ?fs and ?long3.0 = id and few = "[player ''A'' 1500]"]
  have h0: "length [player ''A'' 1500] < 2" by simp
  have c0: "teamSplit id [player ''A'' 1500] = None"
    using t1 [THEN conjunct2, THEN conjunct2, THEN conjunct2, THEN conjunct2, THEN conjunct2,
      THEN conjunct2, THEN conjunct2, THEN conjunct2] h0 by blast
  have h1: "2 \<le> length sample_roster" by (simp add: sample_roster_def)
  have h2: "2 \<le> length ascending_roster" "12 < length ascending_roster"
    by (simp_all add: ascending_roster_def)
  have h3: "sorted_desc_by skill_score (rev ascending_roster)"
    by (simp add: sorted_desc_by_def ascending_roster_def player_def)
  have h4: "mset (rev ascending_roster) = mset ascending_roster" by simp
  have h5: "strict_weak_on (scored id ?fs) (by_score sample_ops)"
    by (simp add: strict_weak_on_def scored_def by_score_def sample_ops_def sample_lt_def)
  have h6: "length ?fs \<le> 12" by simp
  have s: "sort_Slice rev ?cmp ascending_roster = rev ascending_roster"
    using h2(2) by (simp add: sort_Slice_def)
  have o: "greedy_order id sample_ops id ?fs = [(Num 7, Num 7), (Num 7, Num 7), (Num 3, Num 3)]"
    by (simp add: greedy_order_def scored_def sort_Slice_def insertionSort_def by_score_def
          sample_ops_def sample_lt_def)
  have c1: "teamSplit id sample_roster =
        Some ([player ''A'' 1500, player ''C'' 1200], [player ''B'' 1300, player ''D'' 1000], 2700, 2300)"
    by (rule t1 [THEN conjunct2, THEN conjunct2, THEN conjunct1])
  have c2: "sorted_desc_by skill_score (sort_Slice rev ?cmp ascending_roster)"
    using t2 [THEN conjunct2, THEN conjunct1] h3 h4 by blast
  have "teamSplit rev ascending_roster =
        Some (at_positions even (rev ascending_roster), at_positions odd (rev ascending_roster),
              wrap64 (sum_list (map skill_score (at_positions even (rev ascending_roster)))),
              wrap64 (sum_list (map skill_score (at_positions odd (rev ascending_roster)))))"
    using t2 [THEN conjunct1] h2(1) unfolding s by blast
  then have c3: "teamSplit rev ascending_roster =
        Some (map (player []) [13, 11, 9, 7, 5, 3, 1], map (player []) [12, 10, 8, 6, 4, 2], 49, 42)"
    by (simp add: at_positions_def ascending_roster_def player_def wrap64_def)
  have c6: "teamSplit rev (tied_roster 12) =
        Some (map tied [1, 3, 5, 7, 9, 11], map tied [2, 4, 6, 8, 10, 12], 6000, 6000)"
    by code_simp
  have c7: "teamSplit rev (tied_roster 13) =
        Some (map tied [13, 11, 9, 7, 5, 3, 1], map tied [12, 10, 8, 6, 4, 2], 7000, 6000)"
    by code_simp
  have c4: "descending (by_score sample_ops) (greedy_order id sample_ops id ?fs)"
    using t1 [THEN conjunct2, THEN conjunct2, THEN conjunct2, THEN conjunct2, THEN conjunct1] h5 h6
    by blast
  have "greedy_fallback id sample_ops id ?fs =
        (map fst (fst (spec_greedy sample_ops snd (greedy_order id sample_ops id ?fs))),
         map fst (snd (spec_greedy sample_ops snd (greedy_order id sample_ops id ?fs))))"
    by (rule t1 [THEN conjunct2, THEN conjunct2, THEN conjunct2, THEN conjunct1])
  then have c5: "greedy_fallback id sample_ops id ?fs = ([Num 7, Num 3], [Num 7])"
    unfolding o by (simp add: spec_greedy_def sample_arith)
  from h0 c0 h1 c1 h2 h3 h4 c2 c3 c6 c7 h5 h6 o c4 c5 show ?thesis by (intro conjI)
qed

text \<open>
  On the roster with scores 1500, 1300, 1200, 1000 the team split of the programs puts
  1500 and 1200 in team A (sum 2700) and 1300 and 1000 in team B (sum 2300), not 1500 and
  1000 against 1300 and 1200.
\<close>

theorem team_split_alternates_counterexample:
  "teamSplit id [player ''A'' 1500, player ''B'' 1300, player ''C'' 1200, player ''D'' 1000] =
     Some ([player ''A'' 1500, player ''C'' 1200], [player ''B'' 1300, player ''D'' 1000], 2700, 2300)"
  by (simp add: teamSplit_def sort_Slice_def insertionSort_def player_def add64_def wrap64_def)
section \<open>Properties of the exhaustive search of BalanceTeams\<close>

lemma pick_simps [simp]:
  "pick sel [] = []"
  "pick [] xs = []"
  "pick (b # sel) (x # xs) = (if b then x # pick sel xs else pick sel xs)"
  by (simp_all add: pick_def)

lemma length_pick:
  assumes "length sel = length xs"
  shows "length (pick sel xs) + length (pick (map Not sel) xs) = length xs"
  using assms by (induction sel xs rule: list_induct2) simp_all

lemma mset_pick:
  assumes "length sel = length xs"
  shows "mset (pick sel xs) + mset (pick (map Not sel) xs) = mset xs"
  using assms by (induction sel xs rule: list_induct2) simp_all

lemma split_by_mask_pick:
  "split_by_mask ops score msk i ps (teamA, teamB, sumA, sumB) =
     (teamA @ pick (map (bit msk) [i..<i + length ps]) ps,
      teamB @ pick (map Not (map (bit msk) [i..<i + length ps])) ps,
      foldl (\<lambda>s p. f_add ops s (score p)) sumA (pick (map (bit msk) [i..<i + length ps]) ps),
      foldl (\<lambda>s p. f_add ops s (score p)) sumB (pick (map Not (map (bit msk) [i..<i + length ps])) ps))"
proof (induction ps arbitrary: i teamA teamB sumA sumB)
  case Nil
  then show ?case by simp
next
  case (Cons p ps)
  have upt: "[i..<i + length (p # ps)] = i # [i + 1..<i + 1 + length ps]"
    using upt_conv_Cons [of i "i + Suc (length ps)"] by simp
  have b: "(msk AND push_bit i 1 \<noteq> 0) = bit msk i"
    by (simp add: bit_iff_and_push_bit_not_eq_0)
  show ?case
  proof (cases "bit msk i")
    case True
    then show ?thesis
      unfolding upt
      using Cons.IH [of "i + 1" "teamA @ [p]" teamB "f_add ops sumA (score p)" sumB] b
      by simp
  next
    case False
    then show ?thesis
      unfolding upt
      using Cons.IH [of "i + 1" teamA "teamB @ [p]" sumA "f_add ops sumB (score p)"] b
      by simp
  qed
qed

lemma try_mask_sel:
  "try_mask ops score ps msk best =
     (if balanced (mask_sel msk (length ps)) ps
         \<and> f_lt ops (sel_diff ops score (mask_sel msk (length ps)) ps) (fst best)
      then (sel_diff ops score (mask_sel msk (length ps)) ps,
            pick (mask_sel msk (length ps)) ps, pick (map Not (mask_sel msk (length ps))) ps)
      else best)"
  using split_by_mask_pick [of ops score msk 0 ps "[]" "[]" "f_zero ops" "f_zero ops"]
  by (simp add: try_mask_def balanced_def sel_diff_def team_diff_def f_sum_def mask_sel_def Let_def)

lemma mask_loop_inv:
  assumes "irreflp (f_lt ops)" "transp (f_lt ops)" "lo \<le> msk"
    and "\<forall>k. lo \<le> k \<and> k < msk \<and> balanced (mask_sel k (length ps)) ps
           \<longrightarrow> \<not> f_lt ops (sel_diff ops score (mask_sel k (length ps)) ps) (fst best)"
    and "best = init
         \<or> (\<exists>k. lo \<le> k \<and> k < msk \<and> balanced (mask_sel k (length ps)) ps
               \<and> best = (sel_diff ops score (mask_sel k (length ps)) ps,
                         pick (mask_sel k (length ps)) ps, pick (map Not (mask_sel k (length ps))) ps))"
  shows "(\<forall>k. lo \<le> k \<and> k < max msk totl \<and> balanced (mask_sel k (length ps)) ps
           \<longrightarrow> \<not> f_lt ops (sel_diff ops score (mask_sel k (length ps)) ps)
                   (fst (mask_loop ops score ps totl msk best)))
       \<and> (mask_loop ops score ps totl msk best = init
         \<or> (\<exists>k. lo \<le> k \<and> k < max msk totl \<and> balanced (mask_sel k (length ps)) ps
               \<and> mask_loop ops score ps totl msk best
                   = (sel_diff ops score (mask_sel k (length ps)) ps,
                      pick (mask_sel k (length ps)) ps, pick (map Not (mask_sel k (length ps))) ps)))"
  using assms
proof (induction ops score ps totl msk best rule: mask_loop.induct)
  case (1 ops score ps totl msk best)
  let ?n = "length ps"
  let ?d = "\<lambda>k. sel_diff ops score (mask_sel k ?n) ps"
  let ?bal = "\<lambda>k. balanced (mask_sel k ?n) ps"
  let ?cand = "\<lambda>k. (?d k, pick (mask_sel k ?n) ps, pick (map Not (mask_sel k ?n)) ps)"
  note irr = "1.prems"(1) and tr = "1.prems"(2) and lo = "1.prems"(3)
  have P: "\<not> f_lt ops (?d k) (fst best)" if "lo \<le> k" "k < msk" "?bal k" for k
    using "1.prems"(4) that by blast
  note Q = "1.prems"(5)
  show ?case
  proof (cases "msk < totl")
    case False
    then have r: "mask_loop ops score ps totl msk best = best"
      by (subst mask_loop.simps) simp
    have m: "max msk totl = msk" using False by simp
    show ?thesis unfolding r m using "1.prems"(4) Q by blast
  next
    case True
    define best1 where "best1 = try_mask ops score ps msk best"
    have r: "mask_loop ops score ps totl msk best = mask_loop ops score ps totl (msk + 1) best1"
      unfolding best1_def using True by (subst mask_loop.simps) simp
    have m: "max (msk + 1) totl = max msk totl" using True by simp
    have b1: "best1 = (if ?bal msk \<and> f_lt ops (?d msk) (fst best) then ?cand msk else best)"
      unfolding best1_def by (rule try_mask_sel)
    have P1: "\<forall>k. lo \<le> k \<and> k < msk + 1 \<and> ?bal k \<longrightarrow> \<not> f_lt ops (?d k) (fst best1)"
    proof (intro allI impI)
      fix k
      assume k: "lo \<le> k \<and> k < msk + 1 \<and> ?bal k"
      show "\<not> f_lt ops (?d k) (fst best1)"
      proof (cases "?bal msk \<and> f_lt ops (?d msk) (fst best)")
        case upd: True
        then have f: "fst best1 = ?d msk" using b1 by simp
        show ?thesis
        proof (cases "k = msk")
          case True
          then show ?thesis unfolding f using irr by (simp add: irreflp_def)
        next
          case False
          then have "k < msk" using k by simp
          then have nk: "\<not> f_lt ops (?d k) (fst best)" using P k by blast
          show ?thesis
          proof
            assume "f_lt ops (?d k) (fst best1)"
            then have "f_lt ops (?d k) (?d msk)" by (simp only: f)
            with upd have "f_lt ops (?d k) (fst best)"
              using tr by (blast dest: transpD)
            with nk show False ..
          qed
        qed
      next
        case keep: False
        have f: "best1 = best" unfolding b1 using keep by (rule if_not_P)
        show ?thesis
        proof (cases "k = msk")
          case True
          then show ?thesis unfolding f using keep k by blast
        next
          case False
          then have "k < msk" using k by simp
          then show ?thesis unfolding f using P k by blast
        qed
      qed
    qed
    have Q1: "best1 = init \<or> (\<exists>k. lo \<le> k \<and> k < msk + 1 \<and> ?bal k \<and> best1 = ?cand k)"
    proof (cases "?bal msk \<and> f_lt ops (?d msk) (fst best)")
      case True
      then have "lo \<le> msk \<and> msk < msk + 1 \<and> ?bal msk \<and> best1 = ?cand msk"
        using b1 lo by simp
      then show ?thesis by blast
    next
      case False
      have f: "best1 = best" unfolding b1 using False by (rule if_not_P)
      from Q show ?thesis
      proof
        assume "best = init"
        then show ?thesis using f by simp
      next
        assume "\<exists>k. lo \<le> k \<and> k < msk \<and> ?bal k \<and> best = ?cand k"
        then obtain k where "lo \<le> k" "k < msk" "?bal k" "best = ?cand k" by blast
        then have "lo \<le> k \<and> k < msk + 1 \<and> ?bal k \<and> best1 = ?cand k" using f by simp
        then show ?thesis by blast
      qed
    qed
    have lo1: "lo \<le> msk + 1" using lo by simp
    note ih = "1.IH" [OF True irr tr lo1, folded best1_def, OF P1 Q1]
    show ?thesis unfolding r using ih unfolding m .
  qed
qed

lemma mask_loop_unchanged:
  assumes "\<forall>k. balanced (mask_sel k (length ps)) ps
             \<longrightarrow> \<not> f_lt ops (sel_diff ops score (mask_sel k (length ps)) ps) (fst best)"
  shows "mask_loop ops score ps totl msk best = best"
  using assms
proof (induction ops score ps totl msk best rule: mask_loop.induct)
  case (1 ops score ps totl msk best)
  show ?case
  proof (cases "msk < totl")
    case False
    then show ?thesis by (subst mask_loop.simps) simp
  next
    case True
    have "\<not> (balanced (mask_sel msk (length ps)) ps
             \<and> f_lt ops (sel_diff ops score (mask_sel msk (length ps)) ps) (fst best))"
      using "1.prems" by blast
    then have t: "try_mask ops score ps msk best = best"
      unfolding try_mask_sel by (rule if_not_P)
    have "mask_loop ops score ps totl msk best
            = mask_loop ops score ps totl (msk + 1) (try_mask ops score ps msk best)"
      using True by (subst mask_loop.simps) simp
    also have "\<dots> = try_mask ops score ps msk best"
      by (rule "1.IH" [OF True]) (simp add: t "1.prems")
    finally show ?thesis by (simp add: t)
  qed
qed

lemma mask_of_sel:
  fixes sel :: "bool list"
  defines "m \<equiv> (horner_sum of_bool 2 sel :: int)"
  shows "0 \<le> m" "m < push_bit (length sel) 1" "mask_sel m (length sel) = sel"
proof -
  show "0 \<le> m" unfolding m_def by (induction sel) simp_all
  have "m < 2 ^ length sel" unfolding m_def by (rule horner_sum_of_bool_2_less)
  then show "m < push_bit (length sel) 1" by (simp add: push_bit_eq_mult)
  show "mask_sel m (length sel) = sel"
    unfolding mask_sel_def m_def
    by (rule nth_equalityI) (simp_all add: bit_horner_sum_bit_iff)
qed

lemma balanced_odd:
  assumes "odd (length xs)" "length sel = length xs"
  shows "\<not> balanced sel xs"
proof
  assume "balanced sel xs"
  then have "length xs = 2 * length (pick sel xs)"
    using length_pick [OF assms(2)] by (simp add: balanced_def)
  then show False using assms(1) by simp
qed

lemma length_mask_sel [simp]: "length (mask_sel msk n) = n"
  by (simp add: mask_sel_def)

lemma greedy_fallback_Nil: "greedy_fallback long ops score [] = ([], [])"
  by (simp add: greedy_fallback_def sort_Slice_def insertionSort_def)

lemma BalanceTeams_search:
  assumes "length players \<le> 10"
  shows "BalanceTeams long ops Predict players =
      (case mask_loop ops Predict players (push_bit (length players) 1) 0 (f_max ops, [], []) of
         (d, teamA, teamB) \<Rightarrow>
           if length teamA > 0 then (teamA, teamB) else greedy_fallback long ops Predict players)"
  unfolding BalanceTeams_def Let_def using assms by simp

lemma BalanceTeams_even:
  assumes ev: "even (length players)" and le: "length players \<le> 10"
    and irr: "irreflp (f_lt ops)" and tr: "transp (f_lt ops)"
    and sel0: "length sel0 = length players" "balanced sel0 players"
      "f_lt ops (sel_diff ops Predict sel0 players) (f_max ops)"
  shows "\<exists>k. balanced (mask_sel k (length players)) players
           \<and> BalanceTeams long ops Predict players =
               (pick (mask_sel k (length players)) players,
                pick (map Not (mask_sel k (length players))) players)
           \<and> (\<forall>sel. length sel = length players \<and> balanced sel players
                  \<longrightarrow> \<not> f_lt ops (sel_diff ops Predict sel players)
                          (sel_diff ops Predict (mask_sel k (length players)) players))"
proof -
  let ?n = "length players"
  let ?init = "(f_max ops, [], []) :: 'b \<times> 'a list \<times> 'a list"
  let ?d = "\<lambda>k. sel_diff ops Predict (mask_sel k ?n) players"
  let ?cand = "\<lambda>k. (?d k, pick (mask_sel k ?n) players, pick (map Not (mask_sel k ?n)) players)"
  define best where "best = mask_loop ops Predict players (push_bit ?n 1) 0 ?init"
  have tot: "max 0 (push_bit ?n 1 :: int) = push_bit ?n 1"
    by (simp add: push_bit_eq_mult)
  have inv: "(\<forall>k. 0 \<le> k \<and> k < push_bit ?n 1 \<and> balanced (mask_sel k ?n) players
                \<longrightarrow> \<not> f_lt ops (?d k) (fst best))
       \<and> (best = ?init
           \<or> (\<exists>k. 0 \<le> k \<and> k < push_bit ?n 1 \<and> balanced (mask_sel k ?n) players \<and> best = ?cand k))"
  proof -
    have p0: "\<forall>k. (0::int) \<le> k \<and> k < 0 \<and> balanced (mask_sel k ?n) players
                \<longrightarrow> \<not> f_lt ops (?d k) (fst ?init)"
      by auto
    have q0: "?init = ?init
        \<or> (\<exists>k. (0::int) \<le> k \<and> k < 0 \<and> balanced (mask_sel k ?n) players \<and> ?init = ?cand k)"
      by simp
    show ?thesis
      using mask_loop_inv [OF irr tr order_refl p0 q0, of "push_bit ?n 1"]
      unfolding best_def tot .
  qed
  have lower: "\<not> f_lt ops (sel_diff ops Predict sel players) (fst best)"
    if sel: "length sel = ?n" "balanced sel players" for sel
  proof -
    let ?m = "horner_sum of_bool 2 sel :: int"
    have m: "0 \<le> ?m" "?m < push_bit ?n 1" "mask_sel ?m ?n = sel"
      using mask_of_sel [of sel] sel(1) by simp_all
    have "0 \<le> ?m \<and> ?m < push_bit ?n 1 \<and> balanced (mask_sel ?m ?n) players"
      using m sel(2) by simp
    with inv have "\<not> f_lt ops (?d ?m) (fst best)" by blast
    then show ?thesis unfolding m(3) .
  qed
  have "best \<noteq> ?init"
  proof
    assume "best = ?init"
    then have "fst best = f_max ops" by simp
    with lower [OF sel0(1) sel0(2)] sel0(3) show False by simp
  qed
  with inv obtain k where k: "balanced (mask_sel k ?n) players" "best = ?cand k"
    by blast
  let ?A = "pick (mask_sel k ?n) players"
  let ?B = "pick (map Not (mask_sel k ?n)) players"
  have len: "length ?A + length ?B = ?n"
    by (rule length_pick) simp
  note bt = BalanceTeams_search [OF le, of long ops Predict, folded best_def]
  have res: "BalanceTeams long ops Predict players = (?A, ?B)"
  proof (cases "length ?A > 0")
    case True
    then show ?thesis
      unfolding bt k(2) by simp
  next
    case False
    then have "?A = []" by simp
    moreover have "length ?B = length ?A" using k(1) by (simp add: balanced_def)
    ultimately have e: "?A = []" "?B = []" "players = []" using len by simp_all
    have "BalanceTeams long ops Predict players = greedy_fallback long ops Predict players"
      unfolding bt k(2) using e(1) by simp
    then show ?thesis
      using e greedy_fallback_Nil [of long ops Predict] by simp
  qed
  have "\<forall>sel. length sel = ?n \<and> balanced sel players
          \<longrightarrow> \<not> f_lt ops (sel_diff ops Predict sel players) (?d k)"
    using lower k(2) by simp
  with k(1) res show ?thesis by (intro exI [of _ k] conjI)
qed

lemma BalanceTeams_fallback:
  assumes "odd (length players) \<or> 10 < length players
     \<or> (\<forall>sel. length sel = length players \<and> balanced sel players
            \<longrightarrow> \<not> f_lt ops (sel_diff ops Predict sel players) (f_max ops))"
  shows "BalanceTeams long ops Predict players = greedy_fallback long ops Predict players"
proof (cases "10 < length players")
  case True
  then show ?thesis by (simp add: BalanceTeams_def Let_def)
next
  case False
  then have le: "length players \<le> 10" by simp
  have none: "\<forall>k. balanced (mask_sel k (length players)) players
      \<longrightarrow> \<not> f_lt ops (sel_diff ops Predict (mask_sel k (length players)) players)
              (fst (f_max ops, [] :: 'a list, [] :: 'a list))"
  proof (cases "odd (length players)")
    case True
    then show ?thesis using balanced_odd [of players] by simp
  next
    case odd: False
    then have "\<forall>sel. length sel = length players \<and> balanced sel players
            \<longrightarrow> \<not> f_lt ops (sel_diff ops Predict sel players) (f_max ops)"
      using assms False by blast
    then show ?thesis by simp
  qed
  have "mask_loop ops Predict players (push_bit (length players) 1) 0 (f_max ops, [], [])
          = (f_max ops, [], [])"
    by (rule mask_loop_unchanged [OF none])
  then show ?thesis unfolding BalanceTeams_search [OF le] by simp
qed

text \<open>
  C4 (amended).  Scores, sums and differences are \<open>float64\<close> values, with \<open><\<close>
  irreflexive and transitive.  For every roster of even size at most 10 on which some
  split into two teams of equal size has an absolute score-sum difference below
  \<open>math.MaxFloat64\<close>, \<open>BalanceTeams\<close> returns a partition of the roster into
  two teams of exactly half the players each, and no split of the roster into two teams
  of equal size has an absolute score-sum difference below that of the teams returned.
  For every roster of odd size or of more than 10 players, and for every roster on which
  no split into two teams of equal size has a difference below \<open>math.MaxFloat64\<close>
  (as when a score is NaN), it returns the split of the greedy strategy: the players,
  in the order that the sort by score gives them, each assigned to the team whose score
  sum so far is lower, to team A when the sum of team A is \<open><=\<close> that of team B.
  (As stated, for every roster of even size at most 10, the claim fails: see the
  counterexample below.)
\<close>

theorem BalanceTeams_exact:
  "(even (length players) \<and> length players \<le> 10
      \<and> irreflp (f_lt ops) \<and> transp (f_lt ops)
      \<and> length sel0 = length players \<and> balanced sel0 players
      \<and> f_lt ops (sel_diff ops Predict sel0 players) (f_max ops)
      \<longrightarrow> mset (fst (BalanceTeams long ops Predict players))
            + mset (snd (BalanceTeams long ops Predict players)) = mset players
        \<and> length (fst (BalanceTeams long ops Predict players)) = length players div 2
        \<and> length (snd (BalanceTeams long ops Predict players)) = length players div 2
        \<and> (length sel = length players \<and> balanced sel players
             \<longrightarrow> \<not> f_lt ops (sel_diff ops Predict sel players)
                     (team_diff ops Predict (BalanceTeams long ops Predict players))))
   \<and> (odd (length players) \<or> 10 < length players
        \<or> (\<forall>sel. length sel = length players \<and> balanced sel players
               \<longrightarrow> \<not> f_lt ops (sel_diff ops Predict sel players) (f_max ops))
      \<longrightarrow> BalanceTeams long ops Predict players =
            (map fst (fst (spec_greedy ops snd (greedy_order long ops Predict players))),
             map fst (snd (spec_greedy ops snd (greedy_order long ops Predict players)))))"
proof (intro conjI impI)
  assume h: "even (length players) \<and> length players \<le> 10
      \<and> irreflp (f_lt ops) \<and> transp (f_lt ops)
      \<and> length sel0 = length players \<and> balanced sel0 players
      \<and> f_lt ops (sel_diff ops Predict sel0 players) (f_max ops)"
  let ?n = "length players"
  have h1: "even ?n" and h2: "?n \<le> 10" and h3: "irreflp (f_lt ops)" and h4: "transp (f_lt ops)"
    and h5: "length sel0 = ?n" and h6: "balanced sel0 players"
    and h7: "f_lt ops (sel_diff ops Predict sel0 players) (f_max ops)"
    using h by simp_all
  from BalanceTeams_even [OF h1 h2 h3 h4 h5 h6 h7, of long] obtain k where kk:
    "balanced (mask_sel k ?n) players
      \<and> BalanceTeams long ops Predict players =
          (pick (mask_sel k ?n) players, pick (map Not (mask_sel k ?n)) players)
      \<and> (\<forall>sel. length sel = ?n \<and> balanced sel players
          \<longrightarrow> \<not> f_lt ops (sel_diff ops Predict sel players)
                  (sel_diff ops Predict (mask_sel k ?n) players))" ..
  note k = kk [THEN conjunct1] kk [THEN conjunct2, THEN conjunct1] kk [THEN conjunct2, THEN conjunct2]
  have len: "length (pick (mask_sel k ?n) players) + length (pick (map Not (mask_sel k ?n)) players) = ?n"
    by (rule length_pick) simp
  show "mset (fst (BalanceTeams long ops Predict players))
            + mset (snd (BalanceTeams long ops Predict players)) = mset players"
    unfolding k(2) by (simp add: mset_pick)
  show "length (fst (BalanceTeams long ops Predict players)) = length players div 2"
    unfolding k(2) using len k(1) by (simp add: balanced_def)
  show "length (snd (BalanceTeams long ops Predict players)) = length players div 2"
    unfolding k(2) using len k(1) by (simp add: balanced_def)
  assume "length sel = length players \<and> balanced sel players"
  then have "\<not> f_lt ops (sel_diff ops Predict sel players)
                  (sel_diff ops Predict (mask_sel k ?n) players)"
    using k(3) by blast
  then show "\<not> f_lt ops (sel_diff ops Predict sel players)
                     (team_diff ops Predict (BalanceTeams long ops Predict players))"
    unfolding k(2) sel_diff_def .
next
  assume "odd (length players) \<or> 10 < length players
        \<or> (\<forall>sel. length sel = length players \<and> balanced sel players
               \<longrightarrow> \<not> f_lt ops (sel_diff ops Predict sel players) (f_max ops))"
  then have "BalanceTeams long ops Predict players = greedy_fallback long ops Predict players"
    by (rule BalanceTeams_fallback)
  then show "BalanceTeams long ops Predict players =
            (map fst (fst (spec_greedy ops snd (greedy_order long ops Predict players))),
             map fst (snd (spec_greedy ops snd (greedy_order long ops Predict players))))"
    by (simp only: greedy_fallback_spec)
qed

text \<open>
  The roster with scores 1500, 1300, 1200, 1000, on which the split of the first two from
  the last two has difference 600, against the split of the first and the last from the
  others; the roster with scores 1500, 1300, 1200; and the roster with scores NaN, 1500,
  1300, 1200, on which every split has the difference NaN.
\<close>

theorem BalanceTeams_exact_witness:
  "even (length [Num 1500, Num 1300, Num 1200, Num 1000])
   \<and> length [Num 1500, Num 1300, Num 1200, Num 1000] \<le> 10
   \<and> irreflp (f_lt sample_ops) \<and> transp (f_lt sample_ops)
   \<and> length [True, True, False, False] = length [Num 1500, Num 1300, Num 1200, Num 1000]
   \<and> balanced [True, True, False, False] [Num 1500, Num 1300, Num 1200, Num 1000]
   \<and> sel_diff sample_ops id [True, True, False, False] [Num 1500, Num 1300, Num 1200, Num 1000]
       = Num 600
   \<and> f_lt sample_ops (Num 600) (f_max sample_ops)
   \<and> balanced [True, False, False, True] [Num 1500, Num 1300, Num 1200, Num 1000]
   \<and> sel_diff sample_ops id [True, False, False, True] [Num 1500, Num 1300, Num 1200, Num 1000]
       = Num 0
   \<and> BalanceTeams id sample_ops id [Num 1500, Num 1300, Num 1200, Num 1000]
       = ([Num 1300, Num 1200], [Num 1500, Num 1000])
   \<and> \<not> f_lt sample_ops (Num 0)
         (team_diff sample_ops id (BalanceTeams id sample_ops id [Num 1500, Num 1300, Num 1200, Num 1000]))
   \<and> odd (length [Num 1500, Num 1300, Num 1200])
   \<and> BalanceTeams id sample_ops id [Num 1500, Num 1300, Num 1200]
       = ([Num 1500], [Num 1300, Num 1200])
   \<and> BalanceTeams id sample_ops id [NaN, Num 1500, Num 1300, Num 1200]
       = ([NaN], [Num 1500, Num 1300, Num 1200])"
proof -
  let ?ps = "[Num 1500, Num 1300, Num 1200, Num 1000]"
  let ?odd = "[Num 1500, Num 1300, Num 1200]"
  let ?nan = "[NaN, Num 1500, Num 1300, Num 1200]"
  let ?halves = "[True, True, False, False]"
  let ?outer = "[True, False, False, True]"
  have h1: "even (length ?ps) \<and> length ?ps \<le> 10" by simp
  have h2: "irreflp (f_lt sample_ops)"
    by (simp add: irreflp_def sample_ops_def sample_lt_def split: sample_float.splits)
  have h3: "transp (f_lt sample_ops)"
    by (auto simp: transp_def sample_ops_def sample_lt_def split: sample_float.splits)
  have h4: "length ?halves = length ?ps \<and> balanced ?halves ?ps"
    by (simp add: balanced_def)
  have d0: "sel_diff sample_ops id ?halves ?ps = Num 600"
    by (simp add: sel_diff_def team_diff_def sample_arith)
  have h5: "f_lt sample_ops (Num 600) (f_max sample_ops)"
    by (simp add: sample_ops_def sample_lt_def)
  have h6: "length ?outer = length ?ps \<and> balanced ?outer ?ps"
    by (simp add: balanced_def)
  have d1: "sel_diff sample_ops id ?outer ?ps = Num 0"
    by (simp add: sel_diff_def team_diff_def sample_arith)
  have e: "BalanceTeams id sample_ops id ?ps = ([Num 1300, Num 1200], [Num 1500, Num 1000])"
    by code_simp
  have h7: "odd (length ?odd)" by simp
  have g1: "greedy_order id sample_ops id ?odd = [(Num 1500, Num 1500), (Num 1300, Num 1300), (Num 1200, Num 1200)]"
    by (simp add: greedy_order_def scored_def sort_Slice_def insertionSort_def by_score_def
          sample_ops_def sample_lt_def)
  have g2: "greedy_order id sample_ops id ?nan
              = [(NaN, NaN), (Num 1500, Num 1500), (Num 1300, Num 1300), (Num 1200, Num 1200)]"
    by (simp add: greedy_order_def scored_def sort_Slice_def insertionSort_def by_score_def
          sample_ops_def sample_lt_def)
  have h8: "\<forall>sel. length sel = length ?nan \<and> balanced sel ?nan
              \<longrightarrow> \<not> f_lt sample_ops (sel_diff sample_ops id sel ?nan) (f_max sample_ops)"
  proof (intro allI impI)
    fix sel :: "bool list"
    assume "length sel = length ?nan \<and> balanced sel ?nan"
    then have "length sel = 4" by simp
    then obtain a b c d where sel: "sel = [a, b, c, d]"
      by (auto simp: length_Suc_conv numeral_eq_Suc)
    show "\<not> f_lt sample_ops (sel_diff sample_ops id sel ?nan) (f_max sample_ops)"
      unfolding sel by (cases a; cases b; cases c; cases d)
        (simp_all add: sel_diff_def team_diff_def sample_arith)
  qed
  note t1 = BalanceTeams_exact
    [where players = ?ps and ops = sample_ops and Predict = id and long = id
       and ?sel0.0 = ?halves and sel = ?outer]
  note t2 = BalanceTeams_exact
    [where players = ?odd and ops = sample_ops and Predict = id and long = id
       and ?sel0.0 = ?halves and sel = ?outer]
  note t3 = BalanceTeams_exact
    [where players = ?nan and ops = sample_ops and Predict = id and long = id
       and ?sel0.0 = ?halves and sel = ?outer]
  have c1: "\<not> f_lt sample_ops (Num 0) (team_diff sample_ops id (BalanceTeams id sample_ops id ?ps))"
    using t1 [THEN conjunct1] h1 h2 h3 h4 h5 h6 unfolding d0 d1 by blast
  have "BalanceTeams id sample_ops id ?odd =
            (map fst (fst (spec_greedy sample_ops snd (greedy_order id sample_ops id ?odd))),
             map fst (snd (spec_greedy sample_ops snd (greedy_order id sample_ops id ?odd))))"
    using t2 [THEN conjunct2] h7 by blast
  then have c2: "BalanceTeams id sample_ops id ?odd = ([Num 1500], [Num 1300, Num 1200])"
    unfolding g1 by (simp add: spec_greedy_def sample_arith)
  have "BalanceTeams id sample_ops id ?nan =
            (map fst (fst (spec_greedy sample_ops snd (greedy_order id sample_ops id ?nan))),
             map fst (snd (spec_greedy sample_ops snd (greedy_order id sample_ops id ?nan))))"
    using t3 [THEN conjunct2] h8 by blast
  then have c3: "BalanceTeams id sample_ops id ?nan = ([NaN], [Num 1500, Num 1300, Num 1200])"
    unfolding g2 by (simp add: spec_greedy_def sample_arith)
  from h1 h2 h3 h4 d0 h5 h6 d1 e c1 h7 c2 c3 show ?thesis by (intro conjI) simp_all
qed

text \<open>
  A roster of 4 players, the first with the score NaN: every difference is NaN, no
  comparison with \<open>bestDiff\<close> succeeds, and the greedy fallback, in which no
  comparison with the NaN sum of team A succeeds either, returns teams of 1 and 3 players.
\<close>

theorem BalanceTeams_nan_counterexample:
  "even (length [NaN, Num 1500, Num 1300, Num 1200])
   \<and> length [NaN, Num 1500, Num 1300, Num 1200] \<le> 10
   \<and> BalanceTeams id sample_ops id [NaN, Num 1500, Num 1300, Num 1200]
       = ([NaN], [Num 1500, Num 1300, Num 1200])
   \<and> length (fst (BalanceTeams id sample_ops id [NaN, Num 1500, Num 1300, Num 1200])) = 1
   \<and> length (snd (BalanceTeams id sample_ops id [NaN, Num 1500, Num 1300, Num 1200])) = 3"
proof -
  have e: "BalanceTeams id sample_ops id [NaN, Num 1500, Num 1300, Num 1200]
       = ([NaN], [Num 1500, Num 1300, Num 1200])"
    by code_simp
  show ?thesis unfolding e by simp
qed
section \<open>The lane-unique split on a roster with feasible splits\<close>

text \<open>
  C5 (the code departs from the claim).  On the sample roster the split of the players
  0, 1, 2, 8, 9 from the players 3, 4, 5, 6, 7 is feasible under the assignment of the
  specification, every member of both teams receiving a lane the team has not used, and
  the sums of the two teams differ by 5.  The search nevertheless ends with team A =
  5, 6, 7, 8, 9 and an empty team B recorded as best, at difference 15, and the program
  reports that no combination exists: when five members are chosen, \<open>arr\<close> holds only
  the indices after the last one chosen, not the rest of the roster.
\<close>

theorem lane_unique_split_misses_feasible_split:
  "spec_assign sample_lanes [0, 1, 2, 8, 9] []
     = Some [(0, ''TOP''), (1, ''JUNGLE''), (2, ''MIDDLE''), (8, ''BOTTOM''), (9, ''UTILITY'')]
   \<and> spec_assign sample_lanes [3, 4, 5, 6, 7] []
     = Some [(3, ''BOTTOM''), (4, ''UTILITY''), (5, ''TOP''), (6, ''JUNGLE''), (7, ''MIDDLE'')]
   \<and> \<bar>sum_list (map (\<lambda>idx. sample_skills ! idx) [0, 1, 2, 8, 9])
        - sum_list (map (\<lambda>idx. sample_skills ! idx) [3, 4, 5, 6, 7])\<bar> = 5
   \<and> comb sample_lanes sample_skills [0, 1, 2, 3, 4, 5, 6, 7, 8, 9] 5 []
        \<lparr>minDiff = 2 ^ 30, bestA = [], bestB = [], bestAroles = [], bestBroles = []\<rparr>
     = \<lparr>minDiff = 15, bestA = [5, 6, 7, 8, 9], bestB = [],
        bestAroles = [''TOP'', ''JUNGLE'', ''MIDDLE'', ''BOTTOM'', ''UTILITY''],
        bestBroles = [[], [], [], [], []]\<rparr>
   \<and> laneUniqueSplit sample_lanes sample_skills = None"
proof (intro conjI)
  show "spec_assign sample_lanes [0, 1, 2, 8, 9] []
     = Some [(0, ''TOP''), (1, ''JUNGLE''), (2, ''MIDDLE''), (8, ''BOTTOM''), (9, ''UTILITY'')]"
    by code_simp
  show "spec_assign sample_lanes [3, 4, 5, 6, 7] []
     = Some [(3, ''BOTTOM''), (4, ''UTILITY''), (5, ''TOP''), (6, ''JUNGLE''), (7, ''MIDDLE'')]"
    by code_simp
  show "\<bar>sum_list (map (\<lambda>idx. sample_skills ! idx) [0, 1, 2, 8, 9])
        - sum_list (map (\<lambda>idx. sample_skills ! idx) [3, 4, 5, 6, 7])\<bar> = 5"
    by code_simp
  show "comb sample_lanes sample_skills [0, 1, 2, 3, 4, 5, 6, 7, 8, 9] 5 []
        \<lparr>minDiff = 2 ^ 30, bestA = [], bestB = [], bestAroles = [], bestBroles = []\<rparr>
     = \<lparr>minDiff = 15, bestA = [5, 6, 7, 8, 9], bestB = [],
        bestAroles = [''TOP'', ''JUNGLE'', ''MIDDLE'', ''BOTTOM'', ''UTILITY''],
        bestBroles = [[], [], [], [], []]\<rparr>"
    by code_simp
  show "laneUniqueSplit sample_lanes sample_skills = None"
    by code_simp
qed

section \<open>Properties of the rate limiter\<close>

lemma win_inv_prune:
  assumes inv: "win_inv len cap w clock recorded" and mono: "clock \<le> now"
  shows "win_inv len cap (dropWhile (\<lambda>t. t < now - len) w) now recorded"
proof -
  let ?P = "\<lambda>t. t < now - len"
  obtain k where k: "w = drop k recorded" "\<forall>t \<in> set (take k recorded). t < clock - len"
    using inv by (auto simp: win_inv_def)
  define j where "j = length (takeWhile ?P w)"
  have d: "dropWhile ?P w = drop (k + j) recorded"
    unfolding j_def by (simp add: dropWhile_eq_drop k(1) add.commute)
  have t: "take (k + j) recorded = take k recorded @ takeWhile ?P w"
    unfolding j_def by (simp add: take_add k(1) takeWhile_eq_take [symmetric])
  have "\<forall>t \<in> set (take (k + j) recorded). t < now - len"
  proof
    fix t assume "t \<in> set (take (k + j) recorded)"
    then consider "t \<in> set (take k recorded)" | "t \<in> set (takeWhile ?P w)"
      unfolding t by auto
    then show "t < now - len"
    proof cases
      case 1
      then have "t < clock - len" using k(2) by blast
      then show ?thesis using mono by simp
    next
      case 2
      then show ?thesis by (rule set_takeWhileD [THEN conjunct2])
    qed
  qed
  with d have "\<exists>k'. dropWhile ?P w = drop k' recorded \<and> (\<forall>t \<in> set (take k' recorded). t < now - len)"
    by blast
  moreover have "\<forall>a. length (in_window a len recorded) \<le> cap"
    using inv by (simp add: win_inv_def)
  ultimately show ?thesis by (simp add: win_inv_def)
qed

lemma in_window_append:
  "in_window a len (xs @ ys) = in_window a len xs @ in_window a len ys"
  by (simp add: in_window_def)

lemma win_inv_record:
  assumes inv: "win_inv len cap w now recorded" and free: "length w < cap"
  shows "win_inv len cap (w @ [now]) now (recorded @ [now])"
proof -
  obtain k0 where k0: "w = drop k0 recorded" "\<forall>t \<in> set (take k0 recorded). t < now - len"
    using inv by (auto simp: win_inv_def)
  define k where "k = min k0 (length recorded)"
  have kl: "k \<le> length recorded" by (simp add: k_def)
  have kd: "w = drop k recorded" unfolding k0(1) k_def by (simp add: min_def)
  have kt: "take k recorded = take k0 recorded" unfolding k_def by (simp add: min_def)
  have old: "\<forall>t \<in> set (take k recorded). t < now - len" using k0(2) kt by simp
  have cap: "length (in_window a len recorded) \<le> cap" for a
    using inv by (simp add: win_inv_def)
  have 1: "w @ [now] = drop k (recorded @ [now])" using kl kd by simp
  have 2: "\<forall>t \<in> set (take k (recorded @ [now])). t < now - len" using kl old by simp
  have 3: "length (in_window a len (recorded @ [now])) \<le> cap" for a
  proof (cases "a \<le> now \<and> now \<le> a + len")
    case False
    then have "in_window a len (recorded @ [now]) = in_window a len recorded"
      by (auto simp: in_window_def)
    then show ?thesis using cap [of a] by simp
  next
    case True
    have "in_window a len (take k recorded) = []"
      using old True by (auto simp: in_window_def filter_empty_conv)
    then have "in_window a len recorded = in_window a len w"
      using in_window_append [of a len "take k recorded" "drop k recorded"] kd by simp
    moreover have "length (in_window a len w) \<le> length w"
      by (simp add: in_window_def)
    ultimately have "length (in_window a len recorded) < cap" using free by simp
    then show ?thesis by (simp add: in_window_append in_window_def)
  qed
  show ?thesis unfolding win_inv_def using 1 2 3 by blast
qed

lemma limiter_inv_prune:
  assumes "limiter_inv r clock recorded" "clock \<le> now"
  shows "limiter_inv (prune now r) now recorded"
proof -
  have "win_inv (1 * Second) 20 (dropWhile (\<lambda>t. t < now - 1 * Second) (secWin r)) now recorded"
    using assms by (intro win_inv_prune) (simp_all add: limiter_inv_def)
  moreover have "win_inv (120 * Second) 100 (dropWhile (\<lambda>t. t < now - 120 * Second) (twoMin r)) now recorded"
    using assms by (intro win_inv_prune) (simp_all add: limiter_inv_def)
  ultimately show ?thesis by (simp add: limiter_inv_def prune_def)
qed

lemma limiter_inv_record:
  assumes "limiter_inv r now recorded" "length (secWin r) < 20" "length (twoMin r) < 100"
  shows "limiter_inv \<lparr>secWin = secWin r @ [now], twoMin = twoMin r @ [now]\<rparr> now (recorded @ [now])"
proof -
  have "win_inv (1 * Second) 20 (secWin r @ [now]) now (recorded @ [now])"
    using assms by (intro win_inv_record) (simp_all add: limiter_inv_def)
  moreover have "win_inv (120 * Second) 100 (twoMin r @ [now]) now (recorded @ [now])"
    using assms by (intro win_inv_record) (simp_all add: limiter_inv_def)
  ultimately show ?thesis by (simp add: limiter_inv_def)
qed

lemma Wait_loop_inv:
  assumes "limiter_inv r clock recorded" "clock \<le> now"
  shows "limiter_inv (fst (Wait_loop r now lags slept)) (fst (snd (Wait_loop r now lags slept)))
           (recorded @ [fst (snd (Wait_loop r now lags slept))])"
  using assms
proof (induction r now lags slept arbitrary: clock rule: Wait_loop.induct)
  case (1 r now lags slept)
  define r1 where "r1 = prune now r"
  have unfold: "Wait_loop r now lags slept =
      (if length (secWin r1) < 20 \<and> length (twoMin r1) < 100
       then (\<lparr>secWin = secWin r1 @ [now], twoMin = twoMin r1 @ [now]\<rparr>, now, slept, lags)
       else Wait_loop r1
              (now + sleep_needed now r1 + (case lags of [] \<Rightarrow> 0 | lag # rest \<Rightarrow> int lag))
              (tl lags) (slept + sleep_needed now r1))"
    unfolding r1_def by (subst Wait_loop.simps) (simp only: Let_def)
  have inv1: "limiter_inv r1 now recorded"
    unfolding r1_def using "1.prems" by (rule limiter_inv_prune)
  show ?case
  proof (cases "length (secWin r1) < 20 \<and> length (twoMin r1) < 100")
    case True
    have w: "Wait_loop r now lags slept =
        (\<lparr>secWin = secWin r1 @ [now], twoMin = twoMin r1 @ [now]\<rparr>, now, slept, lags)"
      unfolding unfold using True by simp
    show ?thesis
      unfolding w using limiter_inv_record [OF inv1] True by simp
  next
    case False
    let ?now' = "now + sleep_needed now r1 + (case lags of [] \<Rightarrow> 0 | lag # rest \<Rightarrow> int lag)"
    have w: "Wait_loop r now lags slept = Wait_loop r1 ?now' (tl lags) (slept + sleep_needed now r1)"
      unfolding unfold by (simp only: False if_False)
    have "10 * Millisecond \<le> sleep_needed now r1"
      by (simp add: sleep_needed_def Let_def)
    then have later: "now \<le> ?now'"
      by (simp add: Millisecond_def split: list.splits)
    show ?thesis
      unfolding w
      using "1.IH" [OF r1_def False inv1 later] .
  qed
qed

lemma Wait_inv:
  assumes "limiter_inv r clock recorded" "clock \<le> now" "Wait r now lags = (r', stamp, slept)"
  shows "limiter_inv r' stamp (recorded @ [stamp])"
  using Wait_loop_inv [OF assms(1,2), of lags 0] assms(3)
  by (simp add: Wait_def split: prod.splits)

lemma run_calls_inv:
  assumes "limiter_inv r clock recorded"
  shows "limiter_inv (fst (run_calls calls (r, clock, recorded)))
           (fst (snd (run_calls calls (r, clock, recorded))))
           (snd (snd (run_calls calls (r, clock, recorded))))
       \<and> length (snd (snd (run_calls calls (r, clock, recorded)))) = length recorded + length calls"
  using assms
proof (induction calls arbitrary: r clock recorded)
  case Nil
  then show ?case by simp
next
  case (Cons c calls)
  obtain gap lags where c: "c = (gap, lags)" by (cases c) auto
  obtain r' stamp slept where w: "Wait r (clock + int gap) lags = (r', stamp, slept)"
    by (cases "Wait r (clock + int gap) lags") auto
  have "limiter_inv r' stamp (recorded @ [stamp])"
    by (rule Wait_inv [OF Cons.prems _ w]) simp
  from Cons.IH [OF this] show ?case
    by (simp add: c w)
qed

lemma limiter_inv_init: "limiter_inv NewRiotLimiter start []"
  by (simp add: limiter_inv_def win_inv_def NewRiotLimiter_def in_window_def)

text \<open>
  C1.  For every sequence of calls of \<open>Wait\<close> on a new limiter, whatever the times
  between the calls and the lags of the sleeps, every call returns having recorded one
  timestamp, and among the recorded timestamps no window of 1 second, its two ends
  included, holds more than 20 and no window of 120 seconds, its two ends included, holds
  more than 100.
\<close>

theorem limiter_window_bounds:
  "length (in_window a (1 * Second) (snd (snd (run_calls calls (NewRiotLimiter, start, []))))) \<le> 20
   \<and> length (in_window a (120 * Second) (snd (snd (run_calls calls (NewRiotLimiter, start, []))))) \<le> 100
   \<and> length (snd (snd (run_calls calls (NewRiotLimiter, start, [])))) = length calls"
proof -
  let ?st = "run_calls calls (NewRiotLimiter, start, [])"
  have inv: "limiter_inv (fst ?st) (fst (snd ?st)) (snd (snd ?st))"
    and len: "length (snd (snd ?st)) = length calls"
    using run_calls_inv [OF limiter_inv_init [of start], of calls] by simp_all
  have "length (in_window a (1 * Second) (snd (snd ?st))) \<le> 20"
    using inv by (simp add: limiter_inv_def win_inv_def)
  moreover have "length (in_window a (120 * Second) (snd (snd ?st))) \<le> 100"
    using inv by (simp add: limiter_inv_def win_inv_def)
  ultimately show ?thesis using len by (intro conjI)
qed

text \<open>
  Twenty-five calls without any time between them, from time 0: twenty are recorded at
  once, the other five after a sleep of one second and another of 10 milliseconds.
\<close>

theorem limiter_window_bounds_witness:
  "snd (snd (run_calls (replicate 25 (0, [])) (NewRiotLimiter, 0, [])))
     = replicate 20 0 @ replicate 5 1010000000
   \<and> length (in_window 0 (1 * Second)
        (snd (snd (run_calls (replicate 25 (0, [])) (NewRiotLimiter, 0, []))))) \<le> 20
   \<and> length (in_window 0 (1 * Second) (replicate 20 0 @ replicate 5 1010000000)) = 20
   \<and> length (in_window 10000000 (1 * Second) (replicate 20 0 @ replicate 5 1010000000)) = 5"
proof -
  have v: "snd (snd (run_calls (replicate 25 (0, [])) (NewRiotLimiter, 0, [])))
     = replicate 20 0 @ replicate 5 1010000000"
    by code_simp
  have c: "length (in_window 0 (1 * Second)
        (snd (snd (run_calls (replicate 25 (0, [])) (NewRiotLimiter, 0, []))))) \<le> 20"
    by (rule limiter_window_bounds [of 0 "replicate 25 (0, [])" 0, THEN conjunct1])
  have w1: "length (in_window 0 (1 * Second) (replicate 20 0 @ replicate 5 1010000000)) = 20"
    by code_simp
  have w2: "length (in_window 10000000 (1 * Second) (replicate 20 0 @ replicate 5 1010000000)) = 5"
    by code_simp
  from v c w1 w2 show ?thesis by (intro conjI)
qed

end
